theory Spec2Isabelle
  imports Main "HOL-Library.Word" "HOL-Library.AList"
begin

unbundle bit_operations_syntax

section \<open>Data model of the stream manager\<close>

subsection \<open>Bitmasks\<close>

text \<open>
  Modelled from the spec: \<open>bitmask.LongBitmask\<close> (package \<open>internal/tools/bitmask\<close> is
  not among the sources). The spec asks for a long, dense bitmask keyed by StreamID with
  the operations set, unset, is-set, or, sub, is-zero, ones-count,
  trailing-zeros-from(position) and copy. A mask is the list of its bits, bit \<open>i\<close> at
  position \<open>i\<close>; positions beyond the end are unset. \<open>bits\<close> reads a mask as the set of
  the stream ids it holds.
\<close>

type_synonym LongBitmask = "bool list"

definition IsSet :: "LongBitmask \<Rightarrow> nat \<Rightarrow> bool" where
  "IsSet m i = (i < length m \<and> m ! i)"

definition bits :: "LongBitmask \<Rightarrow> nat set" where
  "bits m = {i. IsSet m i}"

definition Set_bit :: "LongBitmask \<Rightarrow> nat \<Rightarrow> LongBitmask" where
  "Set_bit m i = (m @ replicate (Suc i - length m) False)[i := True]"

definition Unset :: "LongBitmask \<Rightarrow> nat \<Rightarrow> LongBitmask" where
  "Unset m i = (if i < length m then m[i := False] else m)"

fun Or_mask :: "LongBitmask \<Rightarrow> LongBitmask \<Rightarrow> LongBitmask" where
  "Or_mask [] ys = ys"
| "Or_mask xs [] = xs"
| "Or_mask (x # xs) (y # ys) = (x \<or> y) # Or_mask xs ys"

fun Sub_mask :: "LongBitmask \<Rightarrow> LongBitmask \<Rightarrow> LongBitmask" where
  "Sub_mask [] ys = []"
| "Sub_mask xs [] = xs"
| "Sub_mask (x # xs) (y # ys) = (x \<and> \<not> y) # Sub_mask xs ys"

definition IsZero :: "LongBitmask \<Rightarrow> bool" where
  "IsZero m = (True \<notin> set m)"

definition Copy :: "LongBitmask \<Rightarrow> LongBitmask" where
  "Copy m = m"

definition OnesCount :: "LongBitmask \<Rightarrow> nat" where
  "OnesCount m = length (filter (\<lambda>b. b) m)"

definition TrailingZerosFrom :: "LongBitmask \<Rightarrow> nat \<Rightarrow> int" where
  "TrailingZerosFrom m from =
     (case List.find (\<lambda>j. m ! j) [from ..< length m] of
        None \<Rightarrow> - 1
      | Some j \<Rightarrow> int (j - from))"

subsection \<open>Queries, as far as the manager looks into them\<close>

text \<open>
  Modelled from the spec: the query package (\<open>internal/query\<close>) is an external
  collaborator and not among the sources. A feature set holds the kinds of sub-predicate
  used (filter-by-id, filter-by-data, filter-by-absolute-time, filter-by-relative-time),
  split into main-query and subquery occurrences, plus the lists of referenced main-tag
  and subquery-tag names. In the source the two sets are bit sets, and the manager
  names four of their bits; \<open>invalidateTags\<close> tells a set with a data or time bit from a
  set with some other bit beside the id filter, so the package has further kinds of
  filter, which are \<open>FeatureFilterOther k\<close> here. Of a parsed condition the manager only calls \<open>Features()\<close> and
  \<open>StreamIDs(nextStreamID)\<close>; the latter returns the explicit id set and whether the
  condition reduces to one. The parser itself is a parameter \<open>Parse\<close> of the operations
  that call it.
\<close>

datatype Feature =
  FeatureFilterID | FeatureFilterData | FeatureFilterTimeAbsolute | FeatureFilterTimeRelative
  | FeatureFilterOther nat

record FeatureSet =
  MainFeatures :: "Feature set"
  SubQueryFeatures :: "Feature set"
  MainTags :: "string list"
  SubQueryTags :: "string list"

record Conditions =
  Features :: FeatureSet
  StreamIDs :: "nat \<Rightarrow> LongBitmask \<times> bool"

record Query =
  QConditions :: Conditions
  Grouping :: "string option"

datatype error =
    ErrInvalidTagName
  | ErrPrefixOnly
  | ErrRelativeTimes
  | ErrGrouping
  | ErrSelfReference
  | ErrMarkOnlyID
  | ErrTagExists
  | ErrUnknownReferencedTag string
  | ErrNotMarkType string
  | ErrUnknownTag string
  | ErrUnknownStreamID nat
  | ErrUnknownConverter string
  | ErrDetachConverter string string error
  | ErrAttachConverter string string error
  | ErrTooComplex string
  | ErrStreamNotFound
  | ErrInvalidConverter string
  | ErrEOF
  | ErrUnexpectedEOF
  | ErrExternal string

subsection \<open>Tags, index readers and the manager\<close>

record TagDetails =
  Matches :: LongBitmask
  Uncertain :: LongBitmask
  Conditions :: Conditions

text \<open>
  \<open>tag\<close> embeds \<open>query.TagDetails\<close>. A \<open>*converters.CachedConverter\<close> is identified
  with the converter's name, the key under which the manager holds it.
\<close>

record tag = TagDetails +
  tagDefinition :: string
  features :: FeatureSet
  color :: string
  converters :: "string list"

text \<open>
  An index reader is immutable once written; a \<open>*index.Reader\<close> is identified with the
  reader it points to, each reader being opened on a file of its own.
\<close>

record Reader =
  Filename :: string
  StreamCount :: int
  PacketCount :: int

type_synonym indexReleaser = "Reader list"

text \<open>
  A goroutine started with \<open>go\<close> is recorded, with its arguments, in the manager's
  \<open>spawned\<close> list.
\<close>

datatype job =
    MergeIndexesJob nat "Reader list" indexReleaser
  | UpdateTagJob string tag "(string \<times> TagDetails) list" "string list" "Reader list" indexReleaser
  | ConvertStreamJob string LongBitmask "Reader list" indexReleaser
  | ImportPcapJob "string list" nat "Reader list" indexReleaser

text \<open>
  \<open>usedIndexes\<close> is a \<open>map[*index.Reader]uint\<close>; \<open>uint\<close> has 64 bits. \<open>removed\<close>
  lists the readers that were closed and whose file was removed from disk.
\<close>

record Manager =
  mergeJobRunning :: bool
  taggingJobRunning :: bool
  converterJobRunning :: bool
  importJobs :: "string list"
  indexes :: "Reader list"
  nStreams :: int
  nPackets :: int
  nextStreamID :: nat
  nUnmergeableIndexes :: int
  allStreams :: LongBitmask
  updatedStreamsDuringTaggingJob :: LongBitmask
  addedStreamsDuringTaggingJob :: LongBitmask
  streamsToConvert :: "(string \<times> LongBitmask) list"
  tags :: "(string \<times> tag) list"
  mconverters :: "string list"
  usedIndexes :: "Reader \<rightharpoonup> 64 word"
  removed :: "Reader list"
  spawned :: "job list"

section \<open>Index release pool\<close>

text \<open>Reading a key that is not in a Go map yields the zero value.\<close>

definition refcount :: "(Reader \<rightharpoonup> 64 word) \<Rightarrow> Reader \<Rightarrow> 64 word" where
  "refcount u i = (case u i of None \<Rightarrow> 0 | Some n \<Rightarrow> n)"

definition lock1 :: "Reader \<Rightarrow> (Reader \<rightharpoonup> 64 word) \<Rightarrow> (Reader \<rightharpoonup> 64 word)" where
  "lock1 i u = u(i \<mapsto> refcount u i + 1)"

definition lock :: "Reader list \<Rightarrow> Manager \<Rightarrow> indexReleaser \<times> Manager" where
  "lock idxs mgr = (idxs, mgr\<lparr>usedIndexes := fold lock1 idxs (usedIndexes mgr)\<rparr>)"

definition release1 ::
  "Reader \<Rightarrow> (Reader \<rightharpoonup> 64 word) \<times> Reader list \<Rightarrow> (Reader \<rightharpoonup> 64 word) \<times> Reader list" where
  "release1 i st =
     (let u = (fst st)(i \<mapsto> refcount (fst st) i - 1)
      in if refcount u i = 0 then (u(i := None), snd st @ [i]) else (u, snd st))"

definition release :: "indexReleaser \<Rightarrow> Manager \<Rightarrow> Manager" where
  "release r mgr =
     (let st = fold release1 r (usedIndexes mgr, removed mgr)
      in mgr\<lparr>usedIndexes := fst st, removed := snd st\<rparr>)"

text \<open>
  \<open>getIndexesCopy(start)\<close> slices \<open>mgr.indexes[start:]\<close>; its callers pass 0 or a
  position of the index list, so the slice expression is in range.
\<close>

definition getIndexesCopy :: "nat \<Rightarrow> Manager \<Rightarrow> (Reader list \<times> indexReleaser) \<times> Manager" where
  "getIndexesCopy start mgr =
     (let idxs = drop start (indexes mgr); lk = lock idxs mgr
      in ((idxs, fst lk), snd lk))"

section \<open>Views\<close>

text \<open>
  The packet type of the index package: a direction and the bytes. \<open>Reverse\<close> swaps the
  two directions; \<open>DirectionClientToServer\<close> is 0 and indexes the first slot of a
  two-element array.
\<close>

datatype Direction = DirectionClientToServer | DirectionServerToClient

fun Reverse :: "Direction \<Rightarrow> Direction" where
  "Reverse DirectionClientToServer = DirectionServerToClient"
| "Reverse DirectionServerToClient = DirectionClientToServer"

record Data =
  Direction :: Direction
  Content :: "8 word list"

record Stream =
  StreamID :: nat

record View =
  vindexes :: "Reader list"
  vreleaser :: indexReleaser
  vtagDetails :: "(string \<times> TagDetails) list"
  vconverters :: "string list"

record StreamContext =
  ctx_s :: "Stream option"
  ctx_v :: "View option"

definition zeroStreamContext :: StreamContext where
  "zeroStreamContext = \<lparr>ctx_s = None, ctx_v = None\<rparr>"

text \<open>
  \<open>fetch\<close> runs its closure on the scheduler and always answers \<open>nil\<close>.
\<close>

definition fetch :: "Manager \<Rightarrow> View \<Rightarrow> error option \<times> Manager \<times> View" where
  "fetch mgr vw =
     (if length (vindexes vw) \<noteq> 0 then (None, mgr, vw)
      else let c = getIndexesCopy 0 mgr
           in (None, snd c,
               vw\<lparr>vindexes := fst (fst c), vreleaser := snd (fst c),
                  vtagDetails := map (\<lambda>(tn, ti). (tn, TagDetails.truncate ti)) (tags mgr),
                  vconverters := mconverters mgr\<rparr>))"

text \<open>
  The loop of \<open>View.Stream\<close>, over the index list from its last element to its first.
  \<open>StreamByID\<close> belongs to the external index package and is a parameter: it answers an
  I/O error, \<open>nil\<close> for a stream the index does not hold, or the stream.
\<close>

fun scanIndexes ::
  "(Reader \<Rightarrow> nat \<Rightarrow> error + Stream option) \<Rightarrow> Reader list \<Rightarrow> nat \<Rightarrow> error + Stream option" where
  "scanIndexes StreamByID [] streamID = Inr None"
| "scanIndexes StreamByID (idx # older) streamID =
     (case StreamByID idx streamID of
        Inl err \<Rightarrow> Inl err
      | Inr None \<Rightarrow> scanIndexes StreamByID older streamID
      | Inr (Some stream) \<Rightarrow> Inr (Some stream))"

definition View_Stream ::
  "(Reader \<Rightarrow> nat \<Rightarrow> error + Stream option) \<Rightarrow> Manager \<Rightarrow> View \<Rightarrow> nat
     \<Rightarrow> (StreamContext \<times> error option) \<times> Manager \<times> View" where
  "View_Stream StreamByID mgr vw streamID =
     (case fetch mgr vw of
        (Some err, mgr', vw') \<Rightarrow> ((zeroStreamContext, Some err), mgr', vw')
      | (None, mgr', vw') \<Rightarrow>
          (case scanIndexes StreamByID (rev (vindexes vw')) streamID of
             Inl err \<Rightarrow> ((zeroStreamContext, Some err), mgr', vw')
           | Inr None \<Rightarrow> ((zeroStreamContext, None), mgr', vw')
           | Inr (Some stream) \<Rightarrow> ((\<lparr>ctx_s = Some stream, ctx_v = Some vw'\<rparr>, None), mgr', vw')))"

text \<open>
  \<open>StreamContext.Data\<close>. The packets of a stream and the output of a converter come from
  the index and converter packages and are parameters. \<open>None\<close> stands for the nil
  pointer dereference of \<open>c.v\<close>.
\<close>

definition StreamContext_Data ::
  "(Stream \<Rightarrow> error + Data list) \<Rightarrow> (string \<Rightarrow> Stream \<Rightarrow> error + Data list)
     \<Rightarrow> StreamContext \<Rightarrow> string \<Rightarrow> (error + Data list) option" where
  "StreamContext_Data streamData converterData c converterName =
     (case ctx_s c of
        None \<Rightarrow> Some (Inl ErrStreamNotFound)
      | Some stream \<Rightarrow>
          if converterName = [] then Some (streamData stream)
          else (case ctx_v c of
                  None \<Rightarrow> None
                | Some vw \<Rightarrow>
                    if converterName \<notin> set (vconverters vw)
                    then Some (Inl (ErrInvalidConverter converterName))
                    else Some (converterData converterName stream)))"

section \<open>Tag registry\<close>

definition referencedTags :: "tag \<Rightarrow> string list" where
  "referencedTags t = MainTags (features t) @ SubQueryTags (features t)"

subsection \<open>Uncertainty propagation\<close>

text \<open>
  In the operations below \<open>None\<close> stands for a call that does not return: it panics on
  a nil tag pointer or (in \<open>inheritTagUncertainty\<close>) never leaves its loop.

  The loop over \<open>ti.features.SubQueryTags\<close> with its \<open>break\<close>: does some
  subquery-referenced tag have a non-empty \<open>Uncertain\<close>?
\<close>

fun anyUncertain :: "(string \<times> tag) list \<Rightarrow> string list \<Rightarrow> bool option" where
  "anyUncertain tgs [] = Some False"
| "anyUncertain tgs (rtn # rest) =
     (case map_of tgs rtn of
        None \<Rightarrow> None
      | Some rt \<Rightarrow> if \<not> IsZero (Uncertain rt) then Some True else anyUncertain tgs rest)"

text \<open>The loop over \<open>ti.features.MainTags\<close>, or-ing into the copy.\<close>

fun orMainTags :: "(string \<times> tag) list \<Rightarrow> string list \<Rightarrow> LongBitmask \<Rightarrow> LongBitmask option" where
  "orMainTags tgs [] u = Some u"
| "orMainTags tgs (rtn # rest) u =
     (case map_of tgs rtn of
        None \<Rightarrow> None
      | Some rt \<Rightarrow> orMainTags tgs rest (Or_mask u (Uncertain rt)))"

text \<open>
  The body of the inner loop of \<open>inheritTagUncertainty\<close> for the key \<open>tn\<close>; the state
  is \<open>resolvedTags\<close> and the tag map.
\<close>

definition inheritStep ::
  "LongBitmask \<Rightarrow> string \<Rightarrow> string list \<times> (string \<times> tag) list
     \<Rightarrow> (string list \<times> (string \<times> tag) list) option" where
  "inheritStep allS tn st =
     (case map_of (snd st) tn of
        None \<Rightarrow> Some st
      | Some ti \<Rightarrow>
          if tn \<in> set (fst st) then Some st
          else if \<exists>rtn\<in>set (referencedTags ti). rtn \<notin> set (fst st) then Some st
          else
            let resolvedTags = tn # fst st in
            if length (MainTags (features ti)) = 0 \<and> length (SubQueryTags (features ti)) = 0
            then Some (resolvedTags, snd st)
            else
              (case anyUncertain (snd st) (SubQueryTags (features ti)) of
                 None \<Rightarrow> None
               | Some True \<Rightarrow>
                   Some (resolvedTags, AList.update tn (ti\<lparr>Uncertain := allS\<rparr>) (snd st))
               | Some False \<Rightarrow>
                   (case orMainTags (snd st) (MainTags (features ti)) (Copy (Uncertain ti)) of
                      None \<Rightarrow> None
                    | Some u \<Rightarrow>
                        Some (resolvedTags, AList.update tn (ti\<lparr>Uncertain := u\<rparr>) (snd st)))))"

text \<open>
  One \<open>for tn, ti := range mgr.tags\<close>. Go leaves the order of a range over a map open:
  \<open>order\<close> is the order in which this range visits the keys.
\<close>

fun inheritPass ::
  "LongBitmask \<Rightarrow> string list \<Rightarrow> string list \<times> (string \<times> tag) list
     \<Rightarrow> (string list \<times> (string \<times> tag) list) option" where
  "inheritPass allS [] st = Some st"
| "inheritPass allS (tn # order) st =
     (case inheritStep allS tn st of
        None \<Rightarrow> None
      | Some st' \<Rightarrow> inheritPass allS order st')"

text \<open>
  The outer loop \<open>for len(resolvedTags) != len(mgr.tags)\<close>. Each element of \<open>orders\<close>
  is the key order of one pass; when the loop wants another pass and \<open>orders\<close> has none
  left, the result is \<open>None\<close>.
\<close>

fun inheritLoop ::
  "LongBitmask \<Rightarrow> string list list \<Rightarrow> string list \<Rightarrow> (string \<times> tag) list
     \<Rightarrow> (string \<times> tag) list option" where
  "inheritLoop allS [] resolvedTags tgs =
     (if length resolvedTags \<noteq> length tgs then None else Some tgs)"
| "inheritLoop allS (order # orders) resolvedTags tgs =
     (if length resolvedTags \<noteq> length tgs
      then (case inheritPass allS order (resolvedTags, tgs) of
              None \<Rightarrow> None
            | Some st \<Rightarrow> inheritLoop allS orders (fst st) (snd st))
      else Some tgs)"

definition inheritTagUncertainty :: "string list list \<Rightarrow> Manager \<Rightarrow> Manager option" where
  "inheritTagUncertainty orders mgr =
     (case inheritLoop (allStreams mgr) orders [] (tags mgr) of
        None \<Rightarrow> None
      | Some tgs \<Rightarrow> Some (mgr\<lparr>tags := tgs\<rparr>))"

subsection \<open>Invalidation after an import\<close>

text \<open>
  The body of the loop of \<open>invalidateTags\<close> for one tag. A feature set is a bit set in
  the source: \<open>f != 0\<close> is \<open>f \<noteq> {}\<close>, \<open>f &^ g\<close> is \<open>f - g\<close>, \<open>f & g\<close> is \<open>f \<inter> g\<close>.
\<close>

definition invalidateTag :: "LongBitmask \<Rightarrow> LongBitmask \<Rightarrow> LongBitmask \<Rightarrow> tag \<Rightarrow> tag" where
  "invalidateTag allS updatedStreams addedStreams ti =
     (if SubQueryFeatures (features ti) \<noteq> {} then ti\<lparr>Uncertain := allS\<rparr>
      else if MainFeatures (features ti) - {FeatureFilterID} = {} then ti
      else
        let u = Or_mask (Copy (Uncertain ti)) addedStreams in
        if MainFeatures (features ti)
             \<inter> {FeatureFilterData, FeatureFilterTimeAbsolute, FeatureFilterTimeRelative} \<noteq> {}
        then ti\<lparr>Uncertain := Or_mask u updatedStreams\<rparr>
        else ti\<lparr>Uncertain := u\<rparr>)"

text \<open>Each iteration of the loop reads and writes the entry of its own key only.\<close>

definition invalidateTags ::
  "string list list \<Rightarrow> LongBitmask \<Rightarrow> LongBitmask \<Rightarrow> Manager \<Rightarrow> Manager option" where
  "invalidateTags orders updatedStreams addedStreams mgr =
     inheritTagUncertainty orders
       (mgr\<lparr>tags := map (\<lambda>(tn, ti). (tn, invalidateTag (allStreams mgr) updatedStreams addedStreams ti))
                       (tags mgr)\<rparr>)"

section \<open>Job scheduler\<close>

subsection \<open>Merging\<close>

text \<open>
  The scan of \<open>startMergeJobIfNeeded\<close> over \<open>mgr.indexes\<close> from position \<open>i\<close>, with the
  running \<open>nStreams\<close>; the result is the position at which a merge starts.
\<close>

fun mergeScan :: "int \<Rightarrow> nat \<Rightarrow> int \<Rightarrow> Reader list \<Rightarrow> nat option" where
  "mergeScan nUnmergeable i n [] = None"
| "mergeScan nUnmergeable i n (idx # rest) =
     (let c = StreamCount idx; n' = n - c
      in if int i \<ge> nUnmergeable \<and> c < n' then Some i
         else mergeScan nUnmergeable (Suc i) n' rest)"

definition startMergeJobIfNeeded :: "Manager \<Rightarrow> Manager" where
  "startMergeJobIfNeeded mgr =
     (if mergeJobRunning mgr \<or> taggingJobRunning mgr then mgr
      else if \<exists>t\<in>set (map snd (tags mgr)). \<not> IsZero (Uncertain t) then mgr
      else
        (case mergeScan (nUnmergeableIndexes mgr) 0 (nStreams mgr) (indexes mgr) of
           None \<Rightarrow> mgr
         | Some i \<Rightarrow>
             let c = getIndexesCopy i (mgr\<lparr>mergeJobRunning := True\<rparr>)
             in (snd c)\<lparr>spawned := spawned (snd c) @ [MergeIndexesJob i (fst (fst c)) (snd (fst c))]\<rparr>))"

text \<open>
  The closure that \<open>mergeIndexesJob\<close> sends back to the scheduler. \<open>mergeResult\<close> is what
  \<open>index.Merge\<close> returned (the index package is external). The slice expression
  \<open>mgr.indexes[offset : offset+len(indexes)]\<close> is in range when
  \<open>offset + len(indexes) \<le> len(mgr.indexes)\<close>; \<open>None\<close> otherwise.
\<close>

definition mergeIndexesJob ::
  "nat \<Rightarrow> Reader list \<Rightarrow> indexReleaser \<Rightarrow> Reader list \<times> error option \<Rightarrow> Manager
     \<Rightarrow> Manager option" where
  "mergeIndexesJob offset idxs releaser mergeResult mgr =
     (let mergedIndexes = fst mergeResult;
          err = snd mergeResult;
          streamsDiff = (\<Sum>idx\<leftarrow>mergedIndexes. StreamCount idx) - (\<Sum>idx\<leftarrow>idxs. StreamCount idx);
          packetsDiff = (\<Sum>idx\<leftarrow>mergedIndexes. PacketCount idx) - (\<Sum>idx\<leftarrow>idxs. PacketCount idx);
          finish = (\<lambda>m. release releaser (startMergeJobIfNeeded (m\<lparr>mergeJobRunning := False\<rparr>)))
      in if length mergedIndexes = 0 \<or> err \<noteq> None
         then Some (finish (mgr\<lparr>nUnmergeableIndexes := nUnmergeableIndexes mgr + 1\<rparr>))
         else if offset + length idxs > length (indexes mgr) then None
         else
           let rel = take (length idxs) (drop offset (indexes mgr));
               mgr1 = release rel mgr;
               mgr2 = snd (lock mergedIndexes mgr1)
           in Some (finish
                (mgr2\<lparr>indexes := take offset (indexes mgr2)
                                   @ (mergedIndexes @ drop (offset + length idxs) (indexes mgr2)),
                      nUnmergeableIndexes := nUnmergeableIndexes mgr2 + (int (length mergedIndexes) - 1),
                      nStreams := nStreams mgr2 + streamsDiff,
                      nPackets := nPackets mgr2 + packetsDiff\<rparr>)))"

subsection \<open>Tagging\<close>

text \<open>
  The loop of \<open>startTaggingJobIfNeeded\<close> over \<open>t.referencedTags()\<close>: \<open>Some False\<close> when
  a referenced tag is still uncertain (\<open>continue outer\<close>).
\<close>

fun referencedCertain :: "(string \<times> tag) list \<Rightarrow> string list \<Rightarrow> bool option" where
  "referencedCertain tgs [] = Some True"
| "referencedCertain tgs (tn # rest) =
     (case map_of tgs tn of
        None \<Rightarrow> None
      | Some rt \<Rightarrow> if \<not> IsZero (Uncertain rt) then Some False else referencedCertain tgs rest)"

text \<open>The range over \<open>mgr.tags\<close>, in the order \<open>order\<close>, up to the tag that is picked.\<close>

fun pickTag :: "(string \<times> tag) list \<Rightarrow> string list \<Rightarrow> (string \<times> tag) option option" where
  "pickTag tgs [] = Some None"
| "pickTag tgs (n # order) =
     (case map_of tgs n of
        None \<Rightarrow> pickTag tgs order
      | Some t \<Rightarrow>
          if IsZero (Uncertain t) then pickTag tgs order
          else (case referencedCertain tgs (referencedTags t) of
                  None \<Rightarrow> None
                | Some False \<Rightarrow> pickTag tgs order
                | Some True \<Rightarrow> Some (Some (n, t))))"

fun collectTagDetails ::
  "(string \<times> tag) list \<Rightarrow> string list \<Rightarrow> (string \<times> TagDetails) list
     \<Rightarrow> (string \<times> TagDetails) list option" where
  "collectTagDetails tgs [] tagDetails = Some tagDetails"
| "collectTagDetails tgs (tn # rest) tagDetails =
     (case map_of tgs tn of
        None \<Rightarrow> None
      | Some rt \<Rightarrow> collectTagDetails tgs rest (AList.update tn (TagDetails.truncate rt) tagDetails))"

definition startTaggingJobIfNeeded :: "string list \<Rightarrow> Manager \<Rightarrow> Manager option" where
  "startTaggingJobIfNeeded order mgr =
     (if taggingJobRunning mgr then Some mgr
      else
        (case pickTag (tags mgr) order of
           None \<Rightarrow> None
         | Some None \<Rightarrow> Some mgr
         | Some (Some (n, t)) \<Rightarrow>
             (case collectTagDetails (tags mgr) (referencedTags t) [] of
                None \<Rightarrow> None
              | Some tagDetails \<Rightarrow>
                  let c = getIndexesCopy 0
                            (mgr\<lparr>updatedStreamsDuringTaggingJob := [],
                                 addedStreamsDuringTaggingJob := [],
                                 taggingJobRunning := True\<rparr>)
                  in Some ((snd c)\<lparr>spawned := spawned (snd c)
                       @ [UpdateTagJob n t tagDetails (mconverters mgr) (fst (fst c)) (snd (fst c))]\<rparr>))))"

subsection \<open>Converting\<close>

text \<open>
  \<open>mgr.streamsToConvert[name]\<close> is a pointer to a mask; a method call on the nil pointer
  of a missing key panics. The range of \<open>startConverterJobIfNeeded\<close> over
  \<open>mgr.converters\<close> visits the converter names in the order \<open>order\<close>.
\<close>

fun pickConverter :: "(string \<times> LongBitmask) list \<Rightarrow> string list \<Rightarrow> string option option" where
  "pickConverter queues [] = Some None"
| "pickConverter queues (converterName # order) =
     (case map_of queues converterName of
        None \<Rightarrow> None
      | Some q \<Rightarrow> if IsZero q then pickConverter queues order else Some (Some converterName))"

definition startConverterJobIfNeeded :: "string list \<Rightarrow> Manager \<Rightarrow> Manager option" where
  "startConverterJobIfNeeded order mgr =
     (if converterJobRunning mgr then Some mgr
      else
        (case pickConverter (streamsToConvert mgr) (filter (\<lambda>n. n \<in> set (mconverters mgr)) order) of
           None \<Rightarrow> None
         | Some None \<Rightarrow> Some mgr
         | Some (Some converterName) \<Rightarrow>
             (case map_of (streamsToConvert mgr) converterName of
                None \<Rightarrow> None
              | Some q \<Rightarrow>
                  let c = getIndexesCopy 0 (mgr\<lparr>converterJobRunning := True\<rparr>);
                      workQueue = Copy q
                  in Some ((snd c)\<lparr>streamsToConvert := AList.update converterName [] (streamsToConvert (snd c)),
                                   spawned := spawned (snd c)
                                     @ [ConvertStreamJob converterName workQueue (fst (fst c)) (snd (fst c))]\<rparr>))))"

text \<open>
  \<open>updateTagJob\<close>, first the part that runs off the scheduler: \<open>found\<close> is what parsing
  the definition and \<open>index.SearchStreams\<close> returned, an error or the ids of the matching
  streams among the uncertain ones.
\<close>

definition updateTagJob_result :: "tag \<Rightarrow> error + nat list \<Rightarrow> tag" where
  "updateTagJob_result t found =
     (case found of
        Inl err \<Rightarrow> t\<lparr>Matches := []\<rparr>
      | Inr streams \<Rightarrow>
          t\<lparr>Matches := fold (\<lambda>sid m. Set_bit m sid) streams
                           (Sub_mask (Copy (Matches t)) (Uncertain t))\<rparr>)
     \<lparr>Uncertain := []\<rparr>"

fun orIntoQueues ::
  "string list \<Rightarrow> LongBitmask \<Rightarrow> (string \<times> LongBitmask) list
     \<Rightarrow> (string \<times> LongBitmask) list option" where
  "orIntoQueues [] m queues = Some queues"
| "orIntoQueues (converter # rest) m queues =
     (case map_of queues converter of
        None \<Rightarrow> None
      | Some q \<Rightarrow> orIntoQueues rest m (AList.update converter (Or_mask q m) queues))"

text \<open>The closure that \<open>updateTagJob\<close> sends back to the scheduler.\<close>

definition updateTagJob ::
  "string list list \<Rightarrow> string list \<Rightarrow> string list \<Rightarrow> string \<Rightarrow> tag \<Rightarrow> error + nat list
     \<Rightarrow> indexReleaser \<Rightarrow> Manager \<Rightarrow> Manager option" where
  "updateTagJob orders tagOrder converterOrder name t0 found releaser mgr =
     (let t = updateTagJob_result t0 found in
      Option.bind
        (case map_of (tags mgr) name of
           None \<Rightarrow> Some mgr
         | Some ot \<Rightarrow>
             if tagDefinition ot = tagDefinition t
             then Option.bind (orIntoQueues (converters t) (Matches t) (streamsToConvert mgr))
                    (\<lambda>queues.
                       let mgr1 = mgr\<lparr>streamsToConvert := queues,
                                      tags := AList.update name t (tags mgr)\<rparr>
                       in if \<not> (IsZero (updatedStreamsDuringTaggingJob mgr1)
                                  \<and> IsZero (addedStreamsDuringTaggingJob mgr1))
                          then invalidateTags orders (updatedStreamsDuringTaggingJob mgr1)
                                 (addedStreamsDuringTaggingJob mgr1) mgr1
                          else Some mgr1)
             else Some mgr)
        (\<lambda>mgr2.
           Option.bind (startTaggingJobIfNeeded tagOrder (mgr2\<lparr>taggingJobRunning := False\<rparr>))
             (\<lambda>mgr3.
                Option.bind (startConverterJobIfNeeded converterOrder (startMergeJobIfNeeded mgr3))
                  (\<lambda>mgr4. Some (release releaser mgr4)))))"

text \<open>
  The closure that \<open>convertStreamJob\<close> sends back to the scheduler: \<open>streamIDs\<close> is what
  is left of the work queue, \<open>convertedStreamIDs\<close> the streams that were converted.
  Resetting the converter touches its cache file and processes only.
\<close>

definition convertStreamJob ::
  "string list \<Rightarrow> string list \<Rightarrow> string \<Rightarrow> LongBitmask \<Rightarrow> LongBitmask
     \<Rightarrow> indexReleaser \<Rightarrow> Manager \<Rightarrow> Manager option" where
  "convertStreamJob tagOrder converterOrder converter streamIDs convertedStreamIDs releaser mgr =
     (let mgr1 = mgr\<lparr>converterJobRunning := False\<rparr> in
      if converter \<notin> set (mconverters mgr1)
      then Option.bind (startConverterJobIfNeeded converterOrder mgr1)
             (\<lambda>mgr2. Some (release releaser mgr2))
      else
        Option.bind
          (if \<not> IsZero streamIDs
           then (case map_of (streamsToConvert mgr1) converter of
                   None \<Rightarrow> None
                 | Some q \<Rightarrow>
                     Some (AList.update converter (Or_mask q streamIDs) (streamsToConvert mgr1)))
           else Some (streamsToConvert mgr1))
          (\<lambda>queues.
             let mgr2 = mgr1\<lparr>streamsToConvert := queues,
                   tags := map (\<lambda>(tn, tg).
                       (tn, if FeatureFilterData \<notin> MainFeatures (features tg)
                               \<and> FeatureFilterData \<notin> SubQueryFeatures (features tg)
                            then tg
                            else tg\<lparr>Uncertain := Or_mask (Uncertain tg) convertedStreamIDs\<rparr>))
                     (tags mgr1)\<rparr>
             in Option.bind (startTaggingJobIfNeeded tagOrder mgr2)
                  (\<lambda>mgr3. Option.bind (startConverterJobIfNeeded converterOrder mgr3)
                     (\<lambda>mgr4. Some (release releaser mgr4)))))"

subsection \<open>Adding a tag\<close>

definition HasPrefix :: "string \<Rightarrow> string \<Rightarrow> bool" where
  "HasPrefix str pre = (take (length pre) str = pre)"

text \<open>\<open>strings.SplitN(str, "/", 2)\<close>: split at the first slash, if there is one.\<close>

definition SplitN2 :: "string \<Rightarrow> string list" where
  "SplitN2 str =
     (if CHR ''/'' \<in> set str
      then [takeWhile (\<lambda>c. c \<noteq> CHR ''/'') str, tl (dropWhile (\<lambda>c. c \<noteq> CHR ''/'') str)]
      else [str])"

definition isMarkName :: "string \<Rightarrow> bool" where
  "isMarkName name = (HasPrefix name ''mark/'' \<or> HasPrefix name ''generated/'')"

text \<open>
  The closure of \<open>AddTag\<close> that runs on the scheduler. Saving the state writes the state
  file and changes nothing in the manager that is modelled here.
\<close>

definition AddTag_job ::
  "string list \<Rightarrow> string \<Rightarrow> bool \<Rightarrow> Query \<Rightarrow> tag \<Rightarrow> Manager \<Rightarrow> (error option \<times> Manager) option" where
  "AddTag_job tagOrder name isMark q nt mgr =
     (if map_of (tags mgr) name \<noteq> None then Some (Some ErrTagExists, mgr)
      else
        (case List.find (\<lambda>t. map_of (tags mgr) t = None) (referencedTags nt) of
           Some t \<Rightarrow> Some (Some (ErrUnknownReferencedTag t), mgr)
         | None \<Rightarrow>
             let nt' = (if isMark
                        then nt\<lparr>Matches := fst (StreamIDs (QConditions q) (nextStreamID mgr))\<rparr>
                        else nt\<lparr>Uncertain := allStreams mgr\<rparr>);
                 mgr1 = mgr\<lparr>tags := AList.update name nt' (tags mgr)\<rparr>
             in if \<not> isMark
                then Option.bind (startTaggingJobIfNeeded tagOrder mgr1) (\<lambda>mgr2. Some (None, mgr2))
                else Some (None, mgr1)))"

definition AddTag ::
  "(string \<Rightarrow> error + Query) \<Rightarrow> string list \<Rightarrow> string \<Rightarrow> string \<Rightarrow> string \<Rightarrow> Manager
     \<Rightarrow> (error option \<times> Manager) option" where
  "AddTag Parse tagOrder name clr queryString mgr =
     (let isMark = (HasPrefix name ''mark/'' \<or> HasPrefix name ''generated/'') in
      if \<not> (HasPrefix name ''tag/'' \<or> HasPrefix name ''service/'' \<or> isMark)
      then Some (Some ErrInvalidTagName, mgr)
      else if length (SplitN2 name) \<le> 1 then None
      else if SplitN2 name ! 1 = [] then Some (Some ErrPrefixOnly, mgr)
      else
        (case Parse queryString of
           Inl err \<Rightarrow> Some (Some err, mgr)
         | Inr q \<Rightarrow>
             let feats = Features (QConditions q) in
             if FeatureFilterTimeRelative \<in> MainFeatures feats \<union> SubQueryFeatures feats
             then Some (Some ErrRelativeTimes, mgr)
             else if Grouping q \<noteq> None then Some (Some ErrGrouping, mgr)
             else
               let nt = \<lparr>Matches = [], Uncertain = [], Conditions = QConditions q,
                         tagDefinition = queryString, features = feats, color = clr,
                         converters = []\<rparr>
               in if name \<in> set (referencedTags nt) then Some (Some ErrSelfReference, mgr)
                  else if isMark \<and> \<not> snd (StreamIDs (QConditions q) 0)
                  then Some (Some ErrMarkOnlyID, mgr)
                  else AddTag_job tagOrder name isMark q nt mgr))"

subsection \<open>Updating a tag\<close>

record updateTagOperationInfo =
  markTagAddStreams :: "nat list"
  markTagDelStreams :: "nat list"
  newColor :: string
  setConverterNames :: "string list"
  convertersUpdated :: bool

datatype UpdateTagOperation =
    UpdateTagOperationMarkAddStream "nat list"
  | UpdateTagOperationMarkDelStream "nat list"
  | UpdateTagOperationUpdateColor string
  | UpdateTagOperationSetConverter "string list"

fun applyOperation :: "UpdateTagOperation \<Rightarrow> updateTagOperationInfo \<Rightarrow> updateTagOperationInfo" where
  "applyOperation (UpdateTagOperationMarkAddStream streams) i = i\<lparr>markTagAddStreams := streams\<rparr>"
| "applyOperation (UpdateTagOperationMarkDelStream streams) i = i\<lparr>markTagDelStreams := streams\<rparr>"
| "applyOperation (UpdateTagOperationUpdateColor c) i = i\<lparr>newColor := c\<rparr>"
| "applyOperation (UpdateTagOperationSetConverter converterNames) i =
     i\<lparr>setConverterNames := converterNames, convertersUpdated := True\<rparr>"

text \<open>
  Stream ids are \<open>uint64\<close>: \<open>s + 1\<close> wraps around at \<open>2 ^ 64\<close>. One loop of
  \<open>UpdateTag\<close> that raises \<open>maxUsedStreamID\<close>:
\<close>

definition raiseMaxUsed :: "nat list \<Rightarrow> nat \<Rightarrow> nat" where
  "raiseMaxUsed streams maxUsedStreamID =
     fold (\<lambda>sid m. if m \<le> sid then (sid + 1) mod 2 ^ 64 else m) streams maxUsedStreamID"

text \<open>\<open>fmt.Sprintf("%d", n)\<close>\<close>

fun showNat :: "nat \<Rightarrow> string" where
  "showNat n = (if n < 10 then [''0123456789'' ! n] else showNat (n div 10) @ [''0123456789'' ! (n mod 10)])"

declare showNat.simps [simp del]

text \<open>The loop of \<open>UpdateTag\<close> that writes the ids of the matches after \<open>id:\<close>.\<close>

function writeIDs :: "LongBitmask \<Rightarrow> nat \<Rightarrow> string \<Rightarrow> string" where
  "writeIDs m lastID b =
     (let zeros = TrailingZerosFrom m lastID in
      if zeros < 0 then b
      else
        let b1 = (if lastID \<noteq> 0 then b @ '','' else b);
            last1 = lastID + nat zeros
        in writeIDs m (last1 + 1) (b1 @ showNat last1))"
  by pat_completeness auto
termination
proof (relation "measure (\<lambda>(m, lastID, b). length m - lastID)")
  show "wf (measure (\<lambda>(m, lastID, b). length m - lastID))"
    by simp
next
  fix m :: LongBitmask and lastID :: nat and b :: string and zeros :: int and b1 :: string
    and last1 :: nat
  assume z: "zeros = TrailingZerosFrom m lastID" and nneg: "\<not> zeros < 0"
    and l1: "last1 = lastID + nat zeros"
  have "lastID + nat (TrailingZerosFrom m lastID) < length m"
    using nneg z by (auto simp: TrailingZerosFrom_def find_Some_iff split: option.splits)
  then show "((m, last1 + 1, b1 @ showNat last1), (m, lastID, b))
               \<in> measure (\<lambda>(m, lastID, b). length m - lastID)"
    using z l1 by simp
qed

declare writeIDs.simps [simp del]

definition markDefinition :: "LongBitmask \<Rightarrow> string" where
  "markDefinition matches =
     (if IsZero matches then ''id:-1'' else writeIDs matches 0 ''id:'')"

text \<open>
  \<open>attachConverterToTag\<close> and \<open>detachConverterFromTag\<close>. The tag is passed as a pointer
  into the tag map, so it is named by its key here. \<open>Reset\<close> is the outcome of
  \<open>converter.Reset()\<close>, which stops the converter's processes and truncates its cache
  file.
\<close>

definition attachConverterToTag ::
  "string list \<Rightarrow> string \<Rightarrow> string \<Rightarrow> Manager \<Rightarrow> (error option \<times> Manager) option" where
  "attachConverterToTag converterOrder tagName converter mgr =
     (case map_of (tags mgr) tagName of
        None \<Rightarrow> None
      | Some tg \<Rightarrow>
          if converter \<in> set (converters tg) then Some (None, mgr)
          else if FeatureFilterData \<in> MainFeatures (features tg)
                  \<or> FeatureFilterData \<in> SubQueryFeatures (features tg)
                  \<or> length (MainTags (features tg)) > 0
                  \<or> length (SubQueryTags (features tg)) > 0
          then Some (Some (ErrTooComplex tagName), mgr)
          else
            (case map_of (streamsToConvert mgr) converter of
               None \<Rightarrow> None
             | Some q \<Rightarrow>
                 Option.bind
                   (startConverterJobIfNeeded converterOrder
                      (mgr\<lparr>tags := AList.update tagName
                                       (tg\<lparr>converters := converters tg @ [converter]\<rparr>) (tags mgr),
                           streamsToConvert := AList.update converter (Or_mask q (Matches tg))
                                                 (streamsToConvert mgr)\<rparr>))
                   (\<lambda>mgr1. Some (None, mgr1))))"

definition detachConverterFromTag ::
  "(string \<Rightarrow> error option) \<Rightarrow> string \<Rightarrow> string \<Rightarrow> Manager \<Rightarrow> (error option \<times> Manager) option" where
  "detachConverterFromTag Reset tagName converter mgr =
     (case map_of (tags mgr) tagName of
        None \<Rightarrow> None
      | Some tg \<Rightarrow>
          let tg1 = tg\<lparr>converters := remove1 converter (converters tg)\<rparr>;
              mgr1 = mgr\<lparr>tags := AList.update tagName tg1 (tags mgr)\<rparr>;
              matchingStreams =
                fold (\<lambda>(tn, t) m.
                        if tn = tagName then m
                        else if converter \<in> set (converters t) then Or_mask m (Matches t)
                        else m)
                  (tags mgr1) [];
              onlyThisTag = Sub_mask (Copy (Matches tg1)) matchingStreams
          in (case map_of (streamsToConvert mgr1) converter of
                None \<Rightarrow> None
              | Some q \<Rightarrow>
                  let mgr2 = mgr1\<lparr>streamsToConvert :=
                               AList.update converter (Sub_mask q onlyThisTag) (streamsToConvert mgr1)\<rparr>
                  in if IsZero matchingStreams
                     then (case Reset converter of
                             Some err \<Rightarrow> Some (Some err, mgr2)
                           | None \<Rightarrow> Some (None, mgr2))
                     else Some (None, mgr2)))"

text \<open>
  The loop of \<open>UpdateTag\<close> that detaches the deselected converters ranges over
  \<open>tag.converters\<close> while \<open>detachConverterFromTag\<close> removes elements from that slice in
  place. \<open>arr\<close> is the backing array of the slice the range started on, \<open>i\<close> the position
  of the range and \<open>n\<close> the number of iterations left; the tag's slice is a prefix of
  \<open>arr\<close>, and removing an element shifts the rest of the prefix one place down.
\<close>

fun detachDeselected ::
  "(string \<Rightarrow> error option) \<Rightarrow> string list \<Rightarrow> string \<Rightarrow> nat \<Rightarrow> nat \<Rightarrow> string list \<Rightarrow> Manager
     \<Rightarrow> (error option \<times> Manager) option" where
  "detachDeselected Reset names name 0 i arr mgr = Some (None, mgr)"
| "detachDeselected Reset names name (Suc n) i arr mgr =
     (let converter = arr ! i in
      if converter \<in> set names then detachDeselected Reset names name n (Suc i) arr mgr
      else
        (case map_of (tags mgr) name of
           None \<Rightarrow> None
         | Some tg \<Rightarrow>
             let cs = converters tg;
                 arr1 = (if converter \<in> set cs
                         then remove1 converter cs @ drop (length cs - 1) arr
                         else arr)
             in (case detachConverterFromTag Reset name converter mgr of
                   None \<Rightarrow> None
                 | Some (Some err, mgr1) \<Rightarrow> Some (Some (ErrDetachConverter converter name err), mgr1)
                 | Some (None, mgr1) \<Rightarrow> detachDeselected Reset names name n (Suc i) arr1 mgr1)))"

text \<open>The loop that attaches the newly selected converters.\<close>

fun attachSelected ::
  "string list \<Rightarrow> string list \<Rightarrow> string \<Rightarrow> string list \<Rightarrow> Manager
     \<Rightarrow> (error option \<times> Manager) option" where
  "attachSelected converterOrder converterNames name [] mgr = Some (None, mgr)"
| "attachSelected converterOrder converterNames name (converterName # rest) mgr =
     (if converterName \<in> set converterNames
      then attachSelected converterOrder converterNames name rest mgr
      else if converterName \<notin> set (mconverters mgr)
      then Some (Some (ErrUnknownConverter converterName), mgr)
      else
        (case attachConverterToTag converterOrder name converterName mgr of
           None \<Rightarrow> None
         | Some (Some err, mgr1) \<Rightarrow> Some (Some (ErrAttachConverter converterName name err), mgr1)
         | Some (None, mgr1) \<Rightarrow> attachSelected converterOrder converterNames name rest mgr1))"

definition updateConverters ::
  "(string \<Rightarrow> error option) \<Rightarrow> string list \<Rightarrow> string \<Rightarrow> string list \<Rightarrow> Manager
     \<Rightarrow> (error option \<times> Manager) option" where
  "updateConverters Reset converterOrder name names mgr =
     (case map_of (tags mgr) name of
        None \<Rightarrow> None
      | Some tg \<Rightarrow>
          (case detachDeselected Reset names name (length (converters tg)) 0 (converters tg) mgr of
             None \<Rightarrow> None
           | Some (Some err, mgr1) \<Rightarrow> Some (Some err, mgr1)
           | Some (None, mgr1) \<Rightarrow>
               (case map_of (tags mgr1) name of
                  None \<Rightarrow> None
                | Some tg1 \<Rightarrow> attachSelected converterOrder (converters tg1) name names mgr1)))"

text \<open>
  The mark part of the closure of \<open>UpdateTag\<close>, entered when \<open>maxUsedStreamID != 0\<close>.
\<close>

definition updateMarks ::
  "(string \<Rightarrow> error + Query) \<Rightarrow> string list list \<Rightarrow> string list \<Rightarrow> string
     \<Rightarrow> updateTagOperationInfo \<Rightarrow> nat \<Rightarrow> Manager \<Rightarrow> (error option \<times> Manager) option" where
  "updateMarks Parse orders tagOrder name info maxUsedStreamID mgr =
     (if maxUsedStreamID \<ge> nextStreamID mgr
      then Some (Some (ErrUnknownStreamID maxUsedStreamID), mgr)
      else
        (case map_of (tags mgr) name of
           None \<Rightarrow> None
         | Some tg \<Rightarrow>
             let added = fold (\<lambda>sid t. t\<lparr>Matches := Set_bit (Matches t) sid,
                                           Uncertain := Set_bit (Uncertain t) sid\<rparr>)
                           (markTagAddStreams info) (tg\<lparr>Matches := Copy (Matches tg)\<rparr>);
                 deleted = fold (\<lambda>sid t. t\<lparr>Matches := Unset (Matches t) sid,
                                             Uncertain := Set_bit (Uncertain t) sid\<rparr>)
                             (markTagDelStreams info) added;
                 newTag = deleted\<lparr>tagDefinition := markDefinition (Matches deleted)\<rparr>;
                 newTag1 = (case Parse (tagDefinition newTag) of
                              Inr q \<Rightarrow> newTag\<lparr>Conditions := QConditions q\<rparr>
                            | Inl err \<Rightarrow> newTag)
             in Option.bind
                  (inheritTagUncertainty orders (mgr\<lparr>tags := AList.update name newTag1 (tags mgr)\<rparr>))
                  (\<lambda>mgr1.
                     (case map_of (tags mgr1) name of
                        None \<Rightarrow> None
                      | Some t1 \<Rightarrow>
                          Option.bind
                            (startTaggingJobIfNeeded tagOrder
                               (mgr1\<lparr>tags := AList.update name (t1\<lparr>Uncertain := []\<rparr>) (tags mgr1)\<rparr>))
                            (\<lambda>mgr2. Some (None, mgr2))))))"

text \<open>The closure of \<open>UpdateTag\<close> that runs on the scheduler.\<close>

definition UpdateTag_job ::
  "(string \<Rightarrow> error + Query) \<Rightarrow> (string \<Rightarrow> error option) \<Rightarrow> string list list \<Rightarrow> string list
     \<Rightarrow> string list \<Rightarrow> string \<Rightarrow> updateTagOperationInfo \<Rightarrow> nat \<Rightarrow> Manager
     \<Rightarrow> (error option \<times> Manager) option" where
  "UpdateTag_job Parse Reset orders tagOrder converterOrder name info maxUsedStreamID mgr =
     (case map_of (tags mgr) name of
        None \<Rightarrow> Some (Some (ErrUnknownTag name), mgr)
      | Some tg \<Rightarrow>
          let mgr1 = (if newColor info \<noteq> []
                      then mgr\<lparr>tags := AList.update name (tg\<lparr>color := newColor info\<rparr>) (tags mgr)\<rparr>
                      else mgr)
          in (case (if convertersUpdated info
                    then updateConverters Reset converterOrder name (setConverterNames info) mgr1
                    else Some (None, mgr1)) of
                None \<Rightarrow> None
              | Some (Some err, mgr2) \<Rightarrow> Some (Some err, mgr2)
              | Some (None, mgr2) \<Rightarrow>
                  if maxUsedStreamID \<noteq> 0
                  then updateMarks Parse orders tagOrder name info maxUsedStreamID mgr2
                  else Some (None, mgr2)))"

definition UpdateTag ::
  "(string \<Rightarrow> error + Query) \<Rightarrow> (string \<Rightarrow> error option) \<Rightarrow> string list list \<Rightarrow> string list
     \<Rightarrow> string list \<Rightarrow> string \<Rightarrow> UpdateTagOperation \<Rightarrow> Manager
     \<Rightarrow> (error option \<times> Manager) option" where
  "UpdateTag Parse Reset orders tagOrder converterOrder name operation mgr =
     (let info = applyOperation operation
                   \<lparr>markTagAddStreams = [], markTagDelStreams = [], newColor = [],
                    setConverterNames = [], convertersUpdated = False\<rparr>
      in if length (markTagAddStreams info) \<noteq> 0 \<or> length (markTagDelStreams info) \<noteq> 0
         then
           if \<not> (HasPrefix name ''mark/'' \<or> HasPrefix name ''generated/'')
           then Some (Some (ErrNotMarkType name), mgr)
           else
             let maxUsedStreamID =
                   raiseMaxUsed (markTagDelStreams info) (raiseMaxUsed (markTagAddStreams info) 0)
             in if maxUsedStreamID = 0 then Some (None, mgr)
                else UpdateTag_job Parse Reset orders tagOrder converterOrder name info
                       (maxUsedStreamID - 1) mgr
         else UpdateTag_job Parse Reset orders tagOrder converterOrder name info 0 mgr)"

section \<open>Specification-level notions and example states\<close>

text \<open>
  The scan of \<open>startMergeJobIfNeeded\<close> stops at relative position \<open>j\<close> of the rest of the
  index list when the running count says so:
\<close>

definition scanHit :: "int \<Rightarrow> nat \<Rightarrow> int \<Rightarrow> Reader list \<Rightarrow> nat \<Rightarrow> bool" where
  "scanHit nU k n rest j =
     (j < length rest \<and> nU \<le> int (k + j)
      \<and> StreamCount (rest ! j) < n - (\<Sum>idx\<leftarrow>take (Suc j) rest. StreamCount idx))"

text \<open>
  The spec's merge eligibility: a position at or after \<open>nUnmergeableIndexes\<close> whose
  index has strictly fewer streams than all later indexes together.
\<close>

definition mergeCandidate :: "Manager \<Rightarrow> nat \<Rightarrow> bool" where
  "mergeCandidate mgr i =
     (i < length (indexes mgr) \<and> nUnmergeableIndexes mgr \<le> int i
      \<and> StreamCount (indexes mgr ! i) < (\<Sum>idx\<leftarrow>drop (Suc i) (indexes mgr). StreamCount idx))"

definition exampleIndex :: "string \<Rightarrow> int \<Rightarrow> Reader" where
  "exampleIndex fn n = \<lparr>Filename = fn, StreamCount = n, PacketCount = 2 * n\<rparr>"

definition emptyManager :: Manager where
  "emptyManager =
     \<lparr>mergeJobRunning = False, taggingJobRunning = False, converterJobRunning = False,
      importJobs = [], indexes = [], nStreams = 0, nPackets = 0, nextStreamID = 0,
      nUnmergeableIndexes = 0, allStreams = [], updatedStreamsDuringTaggingJob = [],
      addedStreamsDuringTaggingJob = [], streamsToConvert = [], tags = [], mconverters = [],
      usedIndexes = Map.empty, removed = [], spawned = []\<rparr>"

text \<open>
  Three indexes of 10, 1 and 5 streams, each locked once by the manager.
\<close>

definition threeIndexes :: Manager where
  "threeIndexes =
     emptyManager
       \<lparr>indexes := [exampleIndex ''a.idx'' 10, exampleIndex ''b.idx'' 1, exampleIndex ''c.idx'' 5],
        nStreams := 16, nPackets := 32, nextStreamID := 16, allStreams := replicate 16 True,
        usedIndexes := [exampleIndex ''a.idx'' 10 \<mapsto> 1, exampleIndex ''b.idx'' 1 \<mapsto> 1,
                        exampleIndex ''c.idx'' 5 \<mapsto> 1]\<rparr>"

definition exampleView :: View where
  "exampleView =
     \<lparr>vindexes = [exampleIndex ''a.idx'' 10, exampleIndex ''b.idx'' 1, exampleIndex ''c.idx'' 5],
      vreleaser = [exampleIndex ''a.idx'' 10, exampleIndex ''b.idx'' 1, exampleIndex ''c.idx'' 5],
      vtagDetails = [], vconverters = []\<rparr>"

text \<open>An index lookup: stream 7 is held by \<open>a.idx\<close> and, rewritten, by \<open>b.idx\<close>.\<close>

definition exampleStreamByID :: "Reader \<Rightarrow> nat \<Rightarrow> error + Stream option" where
  "exampleStreamByID idx streamID =
     (if streamID = 7 \<and> Filename idx \<in> {''a.idx'', ''b.idx''}
      then Inr (Some \<lparr>StreamID = 7\<rparr>) else Inr None)"

text \<open>Two readers, locked twice and once.\<close>

definition pooled :: Manager where
  "pooled = emptyManager\<lparr>usedIndexes :=
      [exampleIndex ''a.idx'' 10 \<mapsto> 2, exampleIndex ''b.idx'' 1 \<mapsto> 1]\<rparr>"

text \<open>
  The three indexes while a merge of the last two runs, after an earlier merge has
  failed: the job holds a second lock on the indexes it merges.
\<close>

definition mergingFrom1 :: Manager where
  "mergingFrom1 =
     threeIndexes
       \<lparr>mergeJobRunning := True, nUnmergeableIndexes := 1,
        usedIndexes := [exampleIndex ''a.idx'' 10 \<mapsto> 1, exampleIndex ''b.idx'' 1 \<mapsto> 2,
                        exampleIndex ''c.idx'' 5 \<mapsto> 2]\<rparr>"

text \<open>
  The spec's list of reasons for which \<open>AddTag\<close> rejects a tag: the name lacks a
  \<open>tag/\<close>, \<open>service/\<close>, \<open>mark/\<close> or \<open>generated/\<close> prefix or is a prefix only; the
  definition fails to parse; the query uses a relative-time condition or grouping; the
  tag references itself; it is a mark or generated tag whose condition does not reduce
  to an explicit id set; a tag of that name exists; it references an unknown tag.
\<close>

definition addTagRejected :: "(string \<Rightarrow> error + Query) \<Rightarrow> string \<Rightarrow> string \<Rightarrow> Manager \<Rightarrow> bool" where
  "addTagRejected Parse name queryString mgr =
     (\<not> (HasPrefix name ''tag/'' \<or> HasPrefix name ''service/''
          \<or> HasPrefix name ''mark/'' \<or> HasPrefix name ''generated/'')
      \<or> name \<in> {''tag/'', ''service/'', ''mark/'', ''generated/''}
      \<or> (case Parse queryString of
            Inl err \<Rightarrow> True
          | Inr q \<Rightarrow>
              FeatureFilterTimeRelative \<in> MainFeatures (Features (QConditions q))
              \<or> FeatureFilterTimeRelative \<in> SubQueryFeatures (Features (QConditions q))
              \<or> Grouping q \<noteq> None
              \<or> name \<in> set (MainTags (Features (QConditions q)))
              \<or> name \<in> set (SubQueryTags (Features (QConditions q)))
              \<or> (HasPrefix name ''mark/'' \<or> HasPrefix name ''generated/'')
                  \<and> \<not> snd (StreamIDs (QConditions q) 0)
              \<or> name \<in> fst ` set (tags mgr)
              \<or> \<not> set (MainTags (Features (QConditions q))) \<subseteq> fst ` set (tags mgr)
              \<or> \<not> set (SubQueryTags (Features (QConditions q))) \<subseteq> fst ` set (tags mgr)))"

text \<open>Every tag that a tag of the map references is a key of the map.\<close>

definition referencesClosed :: "(string \<times> tag) list \<Rightarrow> bool" where
  "referencesClosed tgs = (\<forall>(tn, t)\<in>set tgs. set (referencedTags t) \<subseteq> fst ` set tgs)"

text \<open>
  A stand-in for the query parser on the few definitions the examples use: two id
  lists, a data filter, a reference to the tag \<open>service/http\<close> from a subquery.
\<close>

definition idConditions :: "LongBitmask \<Rightarrow> Conditions" where
  "idConditions m =
     \<lparr>Features = \<lparr>MainFeatures = {FeatureFilterID}, SubQueryFeatures = {}, MainTags = [],
                  SubQueryTags = []\<rparr>,
      StreamIDs = (\<lambda>n. (m, True))\<rparr>"

definition exampleParse :: "string \<Rightarrow> error + Query" where
  "exampleParse str =
     (if str = ''id:3,7''
      then Inr \<lparr>QConditions = idConditions [False, False, False, True, False, False, False, True],
                Grouping = None\<rparr>
      else if str = ''id:3,5,7''
      then Inr \<lparr>QConditions = idConditions [False, False, False, True, False, True, False, True],
                Grouping = None\<rparr>
      else if str = ''data:GET''
      then Inr \<lparr>QConditions =
                  \<lparr>Features = \<lparr>MainFeatures = {FeatureFilterData}, SubQueryFeatures = {},
                               MainTags = [], SubQueryTags = []\<rparr>,
                   StreamIDs = (\<lambda>n. ([], False))\<rparr>,
                Grouping = None\<rparr>
      else if str = ''@sub:service:http''
      then Inr \<lparr>QConditions =
                  \<lparr>Features = \<lparr>MainFeatures = {}, SubQueryFeatures = {},
                               MainTags = [], SubQueryTags = [''service/http'']\<rparr>,
                   StreamIDs = (\<lambda>n. ([], False))\<rparr>,
                Grouping = None\<rparr>
      else Inl (ErrExternal ''parse error''))"

text \<open>The manager after \<open>AddTag("mark/favs", "#f00", "id:3,7")\<close>.\<close>

definition favsTag :: "LongBitmask \<Rightarrow> string \<Rightarrow> tag" where
  "favsTag m d =
     \<lparr>Matches = m, Uncertain = [], Conditions = idConditions m, tagDefinition = d,
      features = \<lparr>MainFeatures = {FeatureFilterID}, SubQueryFeatures = {},
                  MainTags = [], SubQueryTags = []\<rparr>,
      color = ''#f00'', converters = []\<rparr>"

definition favsManager :: Manager where
  "favsManager =
     threeIndexes\<lparr>tags := [(''mark/favs'',
        favsTag [False, False, False, True, False, False, False, True] ''id:3,7'')]\<rparr>"

text \<open>The uncertain streams of the tag named \<open>r\<close> in a tag map.\<close>

definition uncertainOf :: "(string \<times> tag) list \<Rightarrow> string \<Rightarrow> nat set" where
  "uncertainOf tgs r = (case map_of tgs r of None \<Rightarrow> {} | Some rt \<Rightarrow> bits (Uncertain rt))"

text \<open>
  The spec's rule of inheritance for one tag: \<open>t\<close> is the tag before, \<open>t'\<close> the tag after
  and \<open>tgs'\<close> the tag map after. A tag with no referenced tags keeps its \<open>Uncertain\<close>;
  when a subquery-referenced tag has a non-empty \<open>Uncertain\<close> the tag gets
  \<open>allStreams\<close>; otherwise it gets its old \<open>Uncertain\<close> united with the \<open>Uncertain\<close> of
  its main-referenced tags.
\<close>

definition inheritedTag :: "LongBitmask \<Rightarrow> (string \<times> tag) list \<Rightarrow> tag \<Rightarrow> tag \<Rightarrow> bool" where
  "inheritedTag allS tgs' t t' =
     (t' = t\<lparr>Uncertain := Uncertain t'\<rparr>
      \<and> (if referencedTags t = [] then Uncertain t' = Uncertain t
         else if \<exists>r\<in>set (SubQueryTags (features t)). uncertainOf tgs' r \<noteq> {}
         then Uncertain t' = allS
         else bits (Uncertain t')
                = bits (Uncertain t) \<union> (\<Union>r\<in>set (MainTags (features t)). uncertainOf tgs' r)))"

text \<open>
  The tag map is well-formed: its keys are distinct, every referenced tag is a key, and
  the references are acyclic, \<open>rank\<close> being a numbering of the tags in which every tag
  comes after the tags it references.
\<close>

definition tagsWellFormed :: "(string \<Rightarrow> nat) \<Rightarrow> (string \<times> tag) list \<Rightarrow> bool" where
  "tagsWellFormed rank tgs =
     (distinct (map fst tgs)
      \<and> (\<forall>(tn, t)\<in>set tgs. \<forall>r\<in>set (referencedTags t). r \<in> fst ` set tgs \<and> rank r < rank tn))"

text \<open>The invariant of the loops of \<open>inheritTagUncertainty\<close>.\<close>

definition inheritInv ::
  "LongBitmask \<Rightarrow> (string \<times> tag) list \<Rightarrow> string list \<times> (string \<times> tag) list \<Rightarrow> bool" where
  "inheritInv allS tgs0 st =
     (map fst (snd st) = map fst tgs0
      \<and> distinct (fst st) \<and> set (fst st) \<subseteq> fst ` set tgs0
      \<and> (\<forall>tn t. map_of tgs0 tn = Some t \<longrightarrow>
            (\<exists>t'. map_of (snd st) tn = Some t'
               \<and> (if tn \<in> set (fst st)
                  then set (referencedTags t) \<subseteq> set (fst st) \<and> inheritedTag allS (snd st) t t'
                  else t' = t))))"

text \<open>
  The spec's rule of invalidation for one tag, \<open>t\<close> before and \<open>t1\<close> after: a tag that
  uses a subquery feature gets \<open>allStreams\<close>; else a tag whose main features are only the
  id filter, that is a tag with no main feature beside it, is left as it is; every
  other tag, one with a main feature of another kind, gets the added streams joined to
  its \<open>Uncertain\<close>, and the updated streams too when one of its main features is a data
  or time filter.
\<close>

definition invalidatedTag :: "LongBitmask \<Rightarrow> LongBitmask \<Rightarrow> LongBitmask \<Rightarrow> tag \<Rightarrow> tag \<Rightarrow> bool" where
  "invalidatedTag allS updatedStreams addedStreams t t1 =
     (t1 = t\<lparr>Uncertain := Uncertain t1\<rparr>
      \<and> (if SubQueryFeatures (features t) \<noteq> {} then Uncertain t1 = allS
         else if MainFeatures (features t) \<subseteq> {FeatureFilterID} then Uncertain t1 = Uncertain t
         else bits (Uncertain t1)
                = bits (Uncertain t) \<union> bits addedStreams
                  \<union> (if MainFeatures (features t)
                          \<inter> {FeatureFilterData, FeatureFilterTimeAbsolute,
                              FeatureFilterTimeRelative} \<noteq> {}
                     then bits updatedStreams else {})))"

text \<open>
  The tags of the spec's scenario S3: \<open>service/http\<close> filters on data, \<open>tag/slow\<close>
  references it from a subquery; one stream, 0, is known.
\<close>

definition scenarioTags :: Manager where
  "scenarioTags =
     emptyManager
       \<lparr>nextStreamID := 1, allStreams := [True],
        tags := [(''tag/slow'',
                  \<lparr>Matches = [], Uncertain = [],
                   Conditions = \<lparr>Features = \<lparr>MainFeatures = {}, SubQueryFeatures = {},
                                  MainTags = [], SubQueryTags = [''service/http'']\<rparr>,
                                 StreamIDs = (\<lambda>n. ([], False))\<rparr>,
                   tagDefinition = ''@sub:service:http'',
                   features = \<lparr>MainFeatures = {}, SubQueryFeatures = {},
                               MainTags = [], SubQueryTags = [''service/http'']\<rparr>,
                   color = ''#00f'', converters = []\<rparr>),
                 (''service/http'',
                  \<lparr>Matches = [], Uncertain = [],
                   Conditions = \<lparr>Features = \<lparr>MainFeatures = {FeatureFilterData},
                                  SubQueryFeatures = {}, MainTags = [], SubQueryTags = []\<rparr>,
                                 StreamIDs = (\<lambda>n. ([], False))\<rparr>,
                   tagDefinition = ''data:GET'',
                   features = \<lparr>MainFeatures = {FeatureFilterData}, SubQueryFeatures = {},
                               MainTags = [], SubQueryTags = []\<rparr>,
                   color = ''#0f0'', converters = []\<rparr>)]\<rparr>"

text \<open>
  A feature set as the condition of a mark has it: the id filter at most, no subquery
  and no referenced tag.
\<close>

definition pureID :: "FeatureSet \<Rightarrow> bool" where
  "pureID f =
     (MainFeatures f \<subseteq> {FeatureFilterID} \<and> SubQueryFeatures f = {}
      \<and> MainTags f = [] \<and> SubQueryTags f = [])"

text \<open>
  The invariant of the tag map about marks: the names are distinct, and every
  \<open>mark/\<close> or \<open>generated/\<close> tag has an empty \<open>Uncertain\<close> and the features of a pure id
  set.
\<close>

definition marksSettled :: "(string \<times> tag) list \<Rightarrow> bool" where
  "marksSettled tgs =
     (distinct (map fst tgs)
      \<and> (\<forall>n t. map_of tgs n = Some t \<longrightarrow> isMarkName n
            \<longrightarrow> IsZero (Uncertain t) \<and> pureID (features t)))"

text \<open>
  A step from one tag map to another that keeps the names and the features and changes
  the \<open>Uncertain\<close> of no tag with the features of a pure id set.
\<close>

definition tagsEvolve :: "(string \<times> tag) list \<Rightarrow> (string \<times> tag) list \<Rightarrow> bool" where
  "tagsEvolve tgs tgs' =
     (map fst tgs' = map fst tgs
      \<and> (\<forall>n t'. map_of tgs' n = Some t' \<longrightarrow>
            (\<exists>t. map_of tgs n = Some t \<and> features t' = features t
               \<and> (Uncertain t' = Uncertain t \<or> \<not> pureID (features t)))))"

text \<open>
  Modelled from the spec: a condition that reduces to an explicit id set
  (\<open>StreamIDs\<close> answers \<open>ok\<close>) is a pure id set, that is, its features are the id filter
  at most, with no subquery and no referenced tag. The query package is not among the
  sources.
\<close>

definition idSetsArePure :: "(string \<Rightarrow> error + Query) \<Rightarrow> bool" where
  "idSetsArePure Parse =
     (\<forall>str q. Parse str = Inr q \<longrightarrow> snd (StreamIDs (QConditions q) 0)
        \<longrightarrow> pureID (Features (QConditions q)))"

text \<open>
  Four tags, one for each case of the invalidation: \<open>tag/port\<close> uses a filter that is
  neither the id filter nor a data or time filter, \<open>tag/ids\<close> the id filter alone,
  \<open>service/http\<close> a data filter, and \<open>tag/refs\<close> no filter at all but a reference to
  \<open>tag/port\<close>. Two streams are known.
\<close>

definition plainTag :: "Feature set \<Rightarrow> string list \<Rightarrow> string \<Rightarrow> tag" where
  "plainTag fs refs d =
     \<lparr>Matches = [], Uncertain = [],
      Conditions = \<lparr>Features = \<lparr>MainFeatures = fs, SubQueryFeatures = {},
                                 MainTags = refs, SubQueryTags = []\<rparr>,
                    StreamIDs = (\<lambda>n. ([], False))\<rparr>,
      tagDefinition = d,
      features = \<lparr>MainFeatures = fs, SubQueryFeatures = {}, MainTags = refs, SubQueryTags = []\<rparr>,
      color = ''#0f0'', converters = []\<rparr>"

definition filterKinds :: Manager where
  "filterKinds =
     emptyManager
       \<lparr>nextStreamID := 2, allStreams := [True, True],
        tags := [(''tag/refs'', plainTag {} [''tag/port''] ''tag:port''),
                 (''tag/port'', plainTag {FeatureFilterOther 0} [] ''cport:80''),
                 (''tag/ids'', plainTag {FeatureFilterID} [] ''id:1''),
                 (''service/http'', plainTag {FeatureFilterData} [] ''data:GET'')]\<rparr>"

text \<open>
  The spec's tagging job picks a tag whose \<open>uncertain\<close> is non-empty and whose
  referenced tags all have an empty \<open>uncertain\<close>.
\<close>

definition taggable :: "(string \<times> tag) list \<Rightarrow> tag \<Rightarrow> bool" where
  "taggable tgs t =
     (\<not> IsZero (Uncertain t)
      \<and> list_all (\<lambda>r. case map_of tgs r of None \<Rightarrow> False | Some rt \<Rightarrow> IsZero (Uncertain rt))
            (referencedTags t))"

text \<open>
  Tagging is rescheduled, \<open>m\<close> before and \<open>m'\<close> after: nothing changes while a tagging
  job runs or when no tag can be picked; otherwise a job is started for one such tag,
  with the details of its referenced tags and the converters as they are, on all
  indexes, which are locked for it, and the two masks of streams seen during the job
  are emptied.
\<close>

definition taggingRescheduled :: "Manager \<Rightarrow> Manager \<Rightarrow> bool" where
  "taggingRescheduled m m' =
     (if taggingJobRunning m \<or> \<not> (\<exists>n t. map_of (tags m) n = Some t \<and> taggable (tags m) t)
      then m' = m
      else \<exists>n t td.
             map_of (tags m) n = Some t \<and> taggable (tags m) t
             \<and> (\<forall>r. map_of td r
                      = (if r \<in> set (referencedTags t)
                         then map_option TagDetails.truncate (map_of (tags m) r) else None))
             \<and> m' = (snd (lock (indexes m) m))
                       \<lparr>updatedStreamsDuringTaggingJob := [],
                        addedStreamsDuringTaggingJob := [],
                        taggingJobRunning := True,
                        spawned := spawned m
                          @ [UpdateTagJob n t td (mconverters m) (indexes m) (indexes m)]\<rparr>)"

section \<open>Converter cache file\<close>

text \<open>
  The cache file of one converter. The model keeps the bytes of the file on disk, the
  I/O offset of the open file (moved by \<open>Seek\<close> and by every write through the file,
  untouched by the section readers, which read at explicit offsets), and the fields
  of the struct. File sizes and offsets are \<open>int64\<close> values that stay far below
  \<open>2^63\<close> and are integers here; the size of a record body counts the bytes written
  for it and is a natural number. The mutex guards every method and has no part in
  the sequential behaviour.
\<close>

record streamInfo =
  info_offset :: int
  info_size :: nat

record cacheFile =
  fileData :: "8 word list"
  filePos :: nat
  fileSize :: int
  freeSize :: int
  freeStart :: int
  streamInfos :: "64 word \<rightharpoonup> streamInfo"

definition headerSize :: int where
  "headerSize = 8"

definition cleanupMinFreeSize :: int where
  "cleanupMinFreeSize = 16 * 1024 * 1024"

text \<open>
  \<open>readVarInt\<close> on the bytes a reader still has to deliver: the value, the number of
  bytes consumed and the bytes left, or the reader's \<open>io.EOF\<close>.
\<close>

fun readVarIntLoop :: "nat \<Rightarrow> 64 word \<Rightarrow> 8 word list \<Rightarrow> error + (64 word \<times> nat \<times> 8 word list)" where
  "readVarIntLoop bytes result [] = Inl ErrEOF"
| "readVarIntLoop bytes result (b # r) =
     (let bytes1 = bytes + 1;
          result1 = push_bit 7 result OR ucast (b AND 0x7f)
      in if b < 0x80 then Inr (result1, bytes1, r) else readVarIntLoop bytes1 result1 r)"

definition readVarInt :: "8 word list \<Rightarrow> error + (64 word \<times> nat \<times> 8 word list)" where
  "readVarInt r = readVarIntLoop 0 0 r"

text \<open>Every successful \<open>readVarInt\<close> consumes a byte, so the loops over a reader end.\<close>

lemma readVarIntLoop_shorter:
  "readVarIntLoop bytes result r = Inr (sz, n, rest) \<Longrightarrow> length rest < length r"
proof (induction r arbitrary: bytes result)
  case Nil
  then show ?case by simp
next
  case (Cons b r)
  show ?case
  proof (cases "b < 0x80")
    case True
    with Cons.prems show ?thesis by (simp add: Let_def)
  next
    case False
    with Cons.prems have "length rest < length r"
      by (intro Cons.IH [of "bytes + 1" "push_bit 7 result OR ucast (b AND 0x7f)"]) (simp add: Let_def)
    then show ?thesis by simp
  qed
qed

lemma readVarInt_shorter:
  "readVarInt r = Inr (sz, n, rest) \<Longrightarrow> length rest < length r"
  unfolding readVarInt_def by (rule readVarIntLoop_shorter)

text \<open>
  \<open>io.ReadFull\<close> into a slice of \<open>n\<close> bytes: nothing is read for an empty slice,
  \<open>io.EOF\<close> when no byte is left, \<open>io.ErrUnexpectedEOF\<close> when too few are.
\<close>

definition ReadFull :: "nat \<Rightarrow> 8 word list \<Rightarrow> error + (8 word list \<times> 8 word list)" where
  "ReadFull n r =
     (if n = 0 then Inr ([], r)
      else if r = [] then Inl ErrEOF
      else if length r < n then Inl ErrUnexpectedEOF
      else Inr (take n r, drop n r))"

text \<open>
  \<open>io.NewSectionReader(file, off, n)\<close> delivers the bytes of the file from \<open>off\<close>, at
  most \<open>n\<close> of them, and stops at the end of the file.
\<close>

definition sectionBytes :: "int \<Rightarrow> int \<Rightarrow> 8 word list \<Rightarrow> 8 word list" where
  "sectionBytes off n fdata = take (nat n) (drop (nat off) fdata)"

subsection \<open>Data\<close>

text \<open>
  The method \<open>Data\<close> of the cache file is \<open>Data_cache\<close> here, \<open>Data\<close> being the packet
  type. A stream that the cache does not hold gives no packets and no error. The
  counters \<open>bytes[direction]\<close> are a pair, client side first.
\<close>

fun addBytes :: "Direction \<Rightarrow> 64 word \<Rightarrow> 64 word \<times> 64 word \<Rightarrow> 64 word \<times> 64 word" where
  "addBytes DirectionClientToServer sz (cb, sb) = (cb + sz, sb)"
| "addBytes DirectionServerToClient sz (cb, sb) = (cb, sb + sz)"

function readChunkSizes ::
  "8 word list \<Rightarrow> (64 word \<times> Direction) list \<Rightarrow> bool \<Rightarrow> Direction \<Rightarrow> 64 word \<times> 64 word
     \<Rightarrow> error + ((64 word \<times> Direction) list \<times> (64 word \<times> 64 word) \<times> 8 word list)" where
  "readChunkSizes buffer dataSizes prevWasZero direction bytes =
     (case readVarInt buffer of
        Inl err \<Rightarrow> Inl err
      | Inr (sz, n, rest) \<Rightarrow>
          if sz = 0 \<and> prevWasZero then Inr (dataSizes, bytes, rest)
          else readChunkSizes rest (dataSizes @ [(sz, direction)]) (sz = 0) (Reverse direction)
                 (addBytes direction sz bytes))"
  by pat_completeness auto
termination
  by (relation "measure (\<lambda>(buffer, _). length buffer)") (auto dest: readVarInt_shorter)

declare readChunkSizes.simps [simp del]

text \<open>
  The loop that cuts the two blocks into chunks. A slice expression beyond the length
  of the block panics: \<open>None\<close>.
\<close>

fun splitChunks ::
  "(64 word \<times> Direction) list \<Rightarrow> 8 word list \<Rightarrow> 8 word list \<Rightarrow> Data list \<Rightarrow> Data list option" where
  "splitChunks [] clientData serverData data = Some data"
| "splitChunks ((sz, d) # dataSizes) clientData serverData data =
     (if sz = 0 then splitChunks dataSizes clientData serverData data
      else if d = DirectionClientToServer then
        (if length clientData < unat sz then None
         else splitChunks dataSizes (drop (unat sz) clientData) serverData
                (data @ [\<lparr>Direction = d, Content = take (unat sz) clientData\<rparr>]))
      else
        (if length serverData < unat sz then None
         else splitChunks dataSizes clientData (drop (unat sz) serverData)
                (data @ [\<lparr>Direction = d, Content = take (unat sz) serverData\<rparr>])))"

definition Data_cache ::
  "64 word \<Rightarrow> cacheFile \<Rightarrow> (error + (Data list \<times> 64 word \<times> 64 word)) option" where
  "Data_cache streamID c =
     (case streamInfos c streamID of
        None \<Rightarrow> Some (Inr ([], 0, 0))
      | Some info \<Rightarrow>
          (case readChunkSizes (sectionBytes (info_offset info) (int (info_size info)) (fileData c))
                  [] False DirectionClientToServer (0, 0) of
             Inl err \<Rightarrow> Some (Inl err)
           | Inr (dataSizes, (cb, sb), r1) \<Rightarrow>
               (case ReadFull (unat cb) r1 of
                  Inl err \<Rightarrow> Some (Inl err)
                | Inr (clientData, r2) \<Rightarrow>
                    (case ReadFull (unat sb) r2 of
                       Inl err \<Rightarrow> Some (Inl err)
                     | Inr (serverData, r3) \<Rightarrow>
                         (case splitChunks dataSizes clientData serverData [] of
                            None \<Rightarrow> None
                          | Some data \<Rightarrow> Some (Inr (data, cb, sb)))))))"

subsection \<open>DataForSearch\<close>





subsection \<open>SetData\<close>

text \<open>
  The inner loop that writes one chunk size into \<open>buf\<close> from its last slot backwards
  and hands \<open>buf[pos:]\<close> to the writer. \<open>sz\<close> is the length of a slice, an \<open>int\<close>
  below \<open>2^63\<close>, so at most nine of the ten slots are used.
\<close>

function varIntLoop :: "nat \<Rightarrow> 8 word \<Rightarrow> 8 word list \<Rightarrow> 8 word list" where
  "varIntLoop sz flag buf =
     (let buf1 = (of_nat (sz AND 0x7f) OR flag) # buf;
          sz1 = drop_bit 7 sz
      in if sz1 = 0 then buf1 else varIntLoop sz1 0x80 buf1)"
  by pat_completeness auto
termination
proof (relation "measure (\<lambda>(sz, _). sz)", goal_cases)
  case 1
  show ?case by simp
next
  case (2 sz flag buf buf1 sz1)
  then have "sz div 128 \<noteq> 0"
    by (simp add: drop_bit_eq_div)
  then have "sz div 128 < sz"
    by (intro div_less_dividend) auto
  then show ?case
    using 2 by (simp add: drop_bit_eq_div)
qed

declare varIntLoop.simps [simp del]

text \<open>
  The loop over the packets that writes the chunk sizes, a single \<open>0\<close> first when the
  packet is not of the wanted direction.
\<close>

fun writeChunkSizes :: "Direction \<Rightarrow> Data list \<Rightarrow> 8 word list" where
  "writeChunkSizes wantDir [] = []"
| "writeChunkSizes wantDir (p # ps) =
     (let skip = (Direction p \<noteq> wantDir);
          wantDir1 = (if skip then Reverse wantDir else wantDir)
      in (if skip then [0] else []) @ varIntLoop (length (Content p)) 0 []
           @ writeChunkSizes (Reverse wantDir1) ps)"

definition chunkData :: "Direction \<Rightarrow> Data list \<Rightarrow> 8 word list" where
  "chunkData direction ps = concat (map Content (filter (\<lambda>p. Direction p = direction) ps))"

text \<open>
  \<open>binary.Write\<close> of the stream header: the id in eight bytes, lowest byte first.
\<close>

definition streamHeader :: "64 word \<Rightarrow> 8 word list" where
  "streamHeader streamID = map (\<lambda>i. ucast (drop_bit (8 * i) streamID)) [0..<8]"

definition recordBody :: "Data list \<Rightarrow> 8 word list" where
  "recordBody ps =
     writeChunkSizes DirectionClientToServer ps @ [0, 0]
       @ chunkData DirectionClientToServer ps @ chunkData DirectionServerToClient ps"

text \<open>
  A write through the file puts the bytes at the I/O offset, over what is there and
  beyond the end when the offset is past it; \<open>Truncate\<close> cuts the file or pads it
  with zero bytes.
\<close>

definition writeAt :: "nat \<Rightarrow> 8 word list \<Rightarrow> 8 word list \<Rightarrow> 8 word list" where
  "writeAt pos bs fdata =
     take pos fdata @ replicate (pos - length fdata) 0 @ bs @ drop (pos + length bs) fdata"

definition Truncate :: "nat \<Rightarrow> 8 word list \<Rightarrow> 8 word list" where
  "Truncate n fdata = take n fdata @ replicate (n - length fdata) 0"

text \<open>
  The inner loop of the cleanup that reads chunk sizes up to two zeros in a row.
  \<open>dataSize\<close> is a Go \<open>int\<close>, kept as its 64-bit word.
\<close>

function skipSizes ::
  "8 word list \<Rightarrow> nat \<Rightarrow> 64 word \<Rightarrow> int \<Rightarrow> error + (64 word \<times> int \<times> 8 word list)" where
  "skipSizes reader nZeros dataSize pos =
     (if nZeros = 2 then Inr (dataSize, pos, reader)
      else case readVarInt reader of
             Inl err \<Rightarrow> Inl err
           | Inr (sz, n, rest) \<Rightarrow>
               skipSizes rest (if sz \<noteq> 0 then 0 else nZeros + 1) (dataSize + sz) (pos + int n))"
  by pat_completeness auto
termination
  by (relation "measure (\<lambda>(reader, _). length reader)") (auto dest: readVarInt_shorter)

declare skipSizes.simps [simp del]

lemma skipSizes_shorter:
  "skipSizes reader nZeros dataSize pos = Inr (dataSize1, pos1, rest) \<Longrightarrow> length rest \<le> length reader"
proof (induction reader nZeros dataSize pos rule: skipSizes.induct)
  case (1 reader nZeros dataSize pos)
  show ?case
  proof (cases "nZeros = 2")
    case True
    with "1.prems" show ?thesis by (simp add: skipSizes.simps)
  next
    case False
    with "1.prems" obtain sz n r where rv: "readVarInt reader = Inr (sz, n, r)"
      and rec: "skipSizes r (if sz \<noteq> 0 then 0 else nZeros + 1) (dataSize + sz) (pos + int n)
                  = Inr (dataSize1, pos1, rest)"
      by (subst (asm) skipSizes.simps) (auto split: sum.splits)
    from "1.IH" [OF False rv refl refl rec] readVarInt_shorter [OF rv]
    show ?thesis by simp
  qed
qed

text \<open>
  The cleanup loop of \<open>SetData\<close>. \<open>reader\<close> holds the bytes the section reader over
  \<open>[freeStart, fileSize)\<close> still has to deliver, \<open>pending\<close> the bytes handed to the
  loop's buffered writer, which the source never flushes. The map is
  the one \<open>streamID\<close> has just been deleted from, and the loop looks \<open>streamID\<close> up in
  it, a missing key giving the zero \<open>streamInfo\<close>.
\<close>

definition zeroStreamInfo :: streamInfo where
  "zeroStreamInfo = \<lparr>info_offset = 0, info_size = 0\<rparr>"

definition infoOrZero :: "(64 word \<rightharpoonup> streamInfo) \<Rightarrow> 64 word \<Rightarrow> streamInfo" where
  "infoOrZero m k = (case m k of None \<Rightarrow> zeroStreamInfo | Some info \<Rightarrow> info)"

function cleanupLoop ::
  "(64 word \<rightharpoonup> streamInfo) \<Rightarrow> 64 word \<Rightarrow> 8 word list \<Rightarrow> 8 word list \<Rightarrow> int
     \<Rightarrow> error + 8 word list" where
  "cleanupLoop infos streamID reader pending pos =
     (if reader = [] then Inr pending
      else if length reader < 8 then Inl ErrUnexpectedEOF
      else
        let header = take 8 reader;
            r1 = drop 8 reader;
            pos1 = pos + headerSize;
            info = infoOrZero infos streamID
        in if info_offset info = pos1 then
             (if length r1 < info_size info then Inl ErrEOF
              else cleanupLoop infos streamID (drop (info_size info) r1)
                     (pending @ header @ take (info_size info) r1) (pos1 + int (info_size info)))
           else
             (case skipSizes r1 0 0 pos1 of
                Inl err \<Rightarrow> Inl err
              | Inr (dataSize, pos2, r2) \<Rightarrow>
                  if sint dataSize < 0 then Inl (ErrExternal ''bufio: negative count'')
                  else if length r2 < nat (sint dataSize) then Inl ErrEOF
                  else cleanupLoop infos streamID (drop (nat (sint dataSize)) r2) pending
                         (pos2 + sint dataSize)))"
  by pat_completeness auto
termination
proof (relation "measure (\<lambda>(infos, streamID, reader, _). length reader)", goal_cases)
  case 1
  show ?case by simp
next
  case (2 infos streamID reader pending pos header r1 pos1 info)
  then show ?case by simp
next
  case (3 infos streamID reader pending pos header r1 pos1 info x2 dataSize y pos2 r2)
  then have "skipSizes r1 0 0 pos1 = Inr (dataSize, pos2, r2)"
    by simp
  from skipSizes_shorter [OF this] 3 show ?case by simp
qed

declare cleanupLoop.simps [simp del]

text \<open>
  The first part of \<open>SetData\<close>: freeing the older record of the stream and the cleanup.
  The factor test \<open>int64(float64(fileSize) * 0.5)\<close> halves exactly and cuts the
  fraction for every file size below \<open>2^53\<close>. \<open>Seek\<close> and \<open>Truncate\<close> answer an error
  for a negative argument. An error returns at once, with the fields as they are by
  then.
\<close>

definition cleanup :: "64 word \<Rightarrow> cacheFile \<Rightarrow> error option \<times> cacheFile" where
  "cleanup streamID c =
     (let c1 = c\<lparr>streamInfos := (streamInfos c)(streamID := None)\<rparr>
      in if freeStart c1 < 0 then (Some (ErrExternal ''seek: invalid argument''), c1)
         else
           let c2 = c1\<lparr>filePos := nat (freeStart c1)\<rparr>
           in case cleanupLoop (streamInfos c2) streamID
                     (sectionBytes (freeStart c2) (fileSize c2 - freeStart c2) (fileData c2))
                     [] (freeStart c2) of
                Inl err \<Rightarrow> (Some err, c2)
              | Inr pending \<Rightarrow>
                  if fileSize c2 < 0 then (Some (ErrExternal ''truncate: invalid argument''), c2)
                  else (None, c2\<lparr>fileData := Truncate (nat (fileSize c2)) (fileData c2),
                                 freeSize := 0\<rparr>))"

definition cleanupDue :: "cacheFile \<Rightarrow> bool" where
  "cleanupDue c = (freeSize c \<ge> cleanupMinFreeSize \<and> freeSize c \<ge> fileSize c div 2)"

definition markFree :: "streamInfo \<Rightarrow> cacheFile \<Rightarrow> cacheFile" where
  "markFree info c =
     (let c1 = c\<lparr>freeSize := freeSize c + int (info_size info) + headerSize\<rparr>
      in if freeStart c1 > info_offset info - headerSize
         then c1\<lparr>freeStart := info_offset info - headerSize\<rparr> else c1)"

definition freeOlder :: "64 word \<Rightarrow> cacheFile \<Rightarrow> error option \<times> cacheFile" where
  "freeOlder streamID c =
     (case streamInfos c streamID of
        None \<Rightarrow> (None, c)
      | Some info \<Rightarrow>
          let c1 = markFree info c
          in if cleanupDue c1 then cleanup streamID c1 else (None, c1))"

text \<open>
  \<open>SetData\<close>. The record goes through a buffered writer over the file and is on disk
  at the final \<open>Flush\<close>, at the I/O offset the file has then. Write errors of the
  operating system are not modelled.
\<close>

definition SetData :: "64 word \<Rightarrow> Data list \<Rightarrow> cacheFile \<Rightarrow> error option \<times> cacheFile" where
  "SetData streamID convertedPackets c =
     (case freeOlder streamID c of
        (Some err, c1) \<Rightarrow> (Some err, c1)
      | (None, c1) \<Rightarrow>
          let body = recordBody convertedPackets;
              streamSize = length body;
              bs = streamHeader streamID @ body
          in (None,
              c1\<lparr>fileData := writeAt (filePos c1) bs (fileData c1),
                 filePos := filePos c1 + length bs,
                 streamInfos := (streamInfos c1)
                    (streamID \<mapsto> \<lparr>info_offset = fileSize c1 + 8, info_size = streamSize\<rparr>),
                 freeStart := (if freeStart c1 = fileSize c1
                               then freeStart c1 + headerSize + int streamSize
                               else freeStart c1),
                 fileSize := fileSize c1 + headerSize + int streamSize\<rparr>))"

text \<open>
  The cache \<open>NewCacheFile\<close> answers for a path with no file or an empty one.
\<close>

definition emptyCache :: cacheFile where
  "emptyCache = \<lparr>fileData = [], filePos = 0, fileSize = 0, freeSize = 0, freeStart = 0,
                  streamInfos = Map.empty\<rparr>"

definition packet :: "Direction \<Rightarrow> 8 word list \<Rightarrow> Data" where
  "packet d bs = \<lparr>Direction = d, Content = bs\<rparr>"


text \<open>
  \<open>SetData\<close> takes the cleanup branch: the stream has an older record and, with that
  record counted, the free bytes reach both thresholds.
\<close>

definition compacts :: "64 word \<Rightarrow> cacheFile \<Rightarrow> bool" where
  "compacts streamID c =
     (case streamInfos c streamID of
        None \<Rightarrow> False
      | Some info \<Rightarrow> cleanupDue (markFree info c))"


text \<open>One packet of 16 MiB from the client.\<close>

definition bigPacket :: Data where
  "bigPacket = packet DirectionClientToServer (replicate 16777216 0x41)"

text \<open>
  A cache after four calls on an empty file: stream 1 gets the packet \<open>a\<close>, stream 2
  the packet \<open>hi\<close>, stream 3 one packet of 16 MiB, and stream 1 is set again, to \<open>b\<close>,
  which frees its first record at the start of the file.
\<close>

definition threeStreams :: cacheFile where
  "threeStreams =
     snd (SetData 1 [packet DirectionClientToServer [0x62]]
       (snd (SetData 3 [bigPacket]
         (snd (SetData 2 [packet DirectionClientToServer [0x68, 0x69]]
           (snd (SetData 1 [packet DirectionClientToServer [0x61]] emptyCache)))))))"

definition newPacket :: Data where
  "newPacket = packet DirectionClientToServer (replicate 20 0x42)"

section \<open>Properties\<close>

subsection \<open>View.Stream\<close>

lemma scanIndexes_all_nil:
  "\<forall>idx\<in>set idxs. StreamByID idx streamID = Inr None
     \<Longrightarrow> scanIndexes StreamByID idxs streamID = Inr None"
  by (induction idxs) auto

lemma scanIndexes_newest:
  "\<forall>idx\<in>set newer. StreamByID idx streamID = Inr None
     \<Longrightarrow> StreamByID idx streamID = Inr (Some stream)
     \<Longrightarrow> scanIndexes StreamByID (newer @ idx # older) streamID = Inr (Some stream)"
  by (induction newer) auto

lemma fetch_no_error: "fst (fetch mgr vw) = None"
  by (simp add: fetch_def Let_def)

text \<open>
  Claim C10. \<open>View.Stream\<close> scans the view's index list from the newest index to the
  oldest and returns the stream from the newest index that holds the stream id (no newer
  index holding it). When no index holds the id it returns the zero \<open>StreamContext\<close> and
  a nil error, and \<open>Data\<close> on that zero context is what fails with "stream not found".
\<close>

theorem View_Stream_newest_or_zero:
  fixes StreamByID :: "Reader \<Rightarrow> nat \<Rightarrow> error + Stream option"
  assumes "fetch mgr vw = (e, mgr', vw')"
  shows "(vindexes vw' = older @ idx # newer
            \<and> (\<forall>j\<in>set newer. StreamByID j streamID = Inr None)
            \<and> StreamByID idx streamID = Inr (Some stream)
          \<longrightarrow> fst (View_Stream StreamByID mgr vw streamID)
                = (\<lparr>ctx_s = Some stream, ctx_v = Some vw'\<rparr>, None))
       \<and> ((\<forall>j\<in>set (vindexes vw'). StreamByID j streamID = Inr None)
          \<longrightarrow> fst (View_Stream StreamByID mgr vw streamID) = (zeroStreamContext, None)
              \<and> StreamContext_Data streamData converterData
                   (fst (fst (View_Stream StreamByID mgr vw streamID))) converterName
                 = Some (Inl ErrStreamNotFound))"
proof -
  have e: "e = None"
    using assms fetch_no_error [of mgr vw] by simp
  have found: "fst (View_Stream StreamByID mgr vw streamID)
                 = (\<lparr>ctx_s = Some stream, ctx_v = Some vw'\<rparr>, None)"
    if "vindexes vw' = older @ idx # newer"
      and "\<forall>j\<in>set newer. StreamByID j streamID = Inr None"
      and "StreamByID idx streamID = Inr (Some stream)"
  proof -
    have "rev (vindexes vw') = rev newer @ idx # rev older"
      using that(1) by simp
    moreover have "\<forall>j\<in>set (rev newer). StreamByID j streamID = Inr None"
      using that(2) by simp
    ultimately have "scanIndexes StreamByID (rev (vindexes vw')) streamID = Inr (Some stream)"
      using scanIndexes_newest [of "rev newer" StreamByID streamID idx stream "rev older"] that(3)
      by simp
    then show ?thesis
      using assms e by (simp add: View_Stream_def)
  qed
  have missing: "fst (View_Stream StreamByID mgr vw streamID) = (zeroStreamContext, None)"
    if "\<forall>j\<in>set (vindexes vw'). StreamByID j streamID = Inr None"
  proof -
    have "scanIndexes StreamByID (rev (vindexes vw')) streamID = Inr None"
      using that by (intro scanIndexes_all_nil) simp
    then show ?thesis
      using assms e by (simp add: View_Stream_def)
  qed
  have data: "StreamContext_Data streamData converterData zeroStreamContext converterName
                = Some (Inl ErrStreamNotFound)"
    by (simp add: StreamContext_Data_def zeroStreamContext_def)
  show ?thesis
    using found missing data by auto
qed

theorem View_Stream_newest_or_zero_witness:
  "fetch threeIndexes exampleView = (None, threeIndexes, exampleView)
   \<and> vindexes exampleView = [exampleIndex ''a.idx'' 10] @ exampleIndex ''b.idx'' 1 # [exampleIndex ''c.idx'' 5]
   \<and> exampleStreamByID (exampleIndex ''c.idx'' 5) 7 = Inr None
   \<and> exampleStreamByID (exampleIndex ''b.idx'' 1) 7 = Inr (Some \<lparr>StreamID = 7\<rparr>)
   \<and> fst (View_Stream exampleStreamByID threeIndexes exampleView 7)
       = (\<lparr>ctx_s = Some \<lparr>StreamID = 7\<rparr>, ctx_v = Some exampleView\<rparr>, None)
   \<and> list_all (\<lambda>j. exampleStreamByID j 9 = Inr None) (vindexes exampleView)
   \<and> fst (View_Stream exampleStreamByID threeIndexes exampleView 9) = (zeroStreamContext, None)
   \<and> StreamContext_Data (\<lambda>st. Inr []) (\<lambda>cn st. Inr [])
        (fst (fst (View_Stream exampleStreamByID threeIndexes exampleView 9))) ''upper''
       = Some (Inl ErrStreamNotFound)"
proof -
  have f: "fetch threeIndexes exampleView = (None, threeIndexes, exampleView)"
    by (simp add: fetch_def exampleView_def)
  have ix: "vindexes exampleView
              = [exampleIndex ''a.idx'' 10] @ exampleIndex ''b.idx'' 1 # [exampleIndex ''c.idx'' 5]"
    by (simp add: exampleView_def)
  have newer: "\<forall>j\<in>set [exampleIndex ''c.idx'' 5]. exampleStreamByID j 7 = Inr None"
    by (simp add: exampleStreamByID_def exampleIndex_def)
  have hit: "exampleStreamByID (exampleIndex ''b.idx'' 1) 7 = Inr (Some \<lparr>StreamID = 7\<rparr>)"
    by (simp add: exampleStreamByID_def exampleIndex_def)
  have none: "\<forall>j\<in>set (vindexes exampleView). exampleStreamByID j 9 = Inr None"
    by (simp add: exampleStreamByID_def)
  have found: "fst (View_Stream exampleStreamByID threeIndexes exampleView 7)
                 = (\<lparr>ctx_s = Some \<lparr>StreamID = 7\<rparr>, ctx_v = Some exampleView\<rparr>, None)"
    using ix newer hit
      View_Stream_newest_or_zero [OF f, of "[exampleIndex ''a.idx'' 10]" "exampleIndex ''b.idx'' 1"
        "[exampleIndex ''c.idx'' 5]" exampleStreamByID 7 "\<lparr>StreamID = 7\<rparr>"]
    by blast
  have missing: "fst (View_Stream exampleStreamByID threeIndexes exampleView 9) = (zeroStreamContext, None)
      \<and> StreamContext_Data (\<lambda>st. Inr []) (\<lambda>cn st. Inr [])
           (fst (fst (View_Stream exampleStreamByID threeIndexes exampleView 9))) ''upper''
          = Some (Inl ErrStreamNotFound)"
    using none
      View_Stream_newest_or_zero [OF f, of "[]" "exampleIndex ''a.idx'' 10" "[]" exampleStreamByID 9
        "\<lparr>StreamID = 7\<rparr>" "\<lambda>st. Inr []" "\<lambda>cn st. Inr []" "''upper''"]
    by blast
  have all9: "list_all (\<lambda>j. exampleStreamByID j 9 = Inr None) (vindexes exampleView)"
    using none by (simp add: list_all_iff)
  have newer1: "exampleStreamByID (exampleIndex ''c.idx'' 5) 7 = Inr None"
    using newer by simp
  show ?thesis
    using f ix newer1 hit all9 found missing by blast
qed

subsection \<open>Index release pool\<close>


lemma refcount_upd: "refcount (u(i \<mapsto> n)) r = (if r = i then n else refcount u r)"
  by (simp add: refcount_def)

lemma refcount_del: "refcount (u(i := None)) r = (if r = i then 0 else refcount u r)"
  by (simp add: refcount_def)

lemma unat_word64_succ: "unat (w :: 64 word) + 1 < 2 ^ 64 \<Longrightarrow> unat (w + 1) = unat w + 1"
  by (simp add: unat_word_ariths)

lemma unat_word64_pred: "w \<noteq> 0 \<Longrightarrow> unat (w - 1 :: 64 word) = unat w - 1"
  by (simp add: unat_minus_one)

lemma fold_lock1_count:
  "\<forall>r. unat (refcount u r) + count_list idxs r < 2 ^ 64
     \<Longrightarrow> unat (refcount (fold lock1 idxs u) r) = unat (refcount u r) + count_list idxs r"
proof (induction idxs arbitrary: u)
  case Nil
  then show ?case by simp
next
  case (Cons i idxs)
  have step: "unat (refcount (lock1 i u) r) = unat (refcount u r) + (if r = i then 1 else 0)" for r
  proof (cases "r = i")
    case True
    have "unat (refcount u i) + 1 < 2 ^ 64"
      using Cons.prems [rule_format, of i] by simp
    then show ?thesis
      using True by (simp add: lock1_def refcount_upd unat_word64_succ)
  next
    case False
    then show ?thesis by (simp add: lock1_def refcount_upd)
  qed
  have "unat (refcount (lock1 i u) r) + count_list idxs r < 2 ^ 64" for r
    using Cons.prems [rule_format, of r] step [of r] by (cases "r = i") auto
  then have "\<forall>r. unat (refcount (lock1 i u) r) + count_list idxs r < 2 ^ 64"
    by blast
  from Cons.IH [OF this] show ?case
    using step [of r] by (cases "r = i") auto
qed

lemma fold_release1_count:
  "\<forall>r. unat (refcount u r) = c r + count_list h r
     \<Longrightarrow> (\<forall>r. unat (refcount (fst (fold release1 h (u, rm))) r) = c r)
       \<and> set (snd (fold release1 h (u, rm))) = set rm \<union> {r \<in> set h. c r = 0}"
proof (induction h arbitrary: u rm)
  case Nil
  then show ?case by simp
next
  case (Cons i h)
  define u1 where "u1 = u(i \<mapsto> refcount u i - 1)"
  have pos: "refcount u i \<noteq> 0"
    using Cons.prems [rule_format, of i] by (auto simp: unat_eq_0 [symmetric] simp del: unat_eq_0)
  have u1i: "unat (refcount u1 i) = c i + count_list h i"
    using Cons.prems [rule_format, of i] pos
    by (simp add: u1_def refcount_upd unat_word64_pred)
  have u1r: "r \<noteq> i \<Longrightarrow> unat (refcount u1 r) = c r + count_list h r" for r
    using Cons.prems [rule_format, of r] by (simp add: u1_def refcount_upd)
  show ?case
  proof (cases "refcount u1 i = 0")
    case True
    then have zero: "c i = 0" "count_list h i = 0"
      using u1i by simp_all
    define u2 where "u2 = u1(i := None)"
    have r1: "release1 i (u, rm) = (u2, rm @ [i])"
      using True by (simp add: release1_def u1_def u2_def Let_def)
    have "unat (refcount u2 r) = c r + count_list h r" for r
      using u1r [of r] zero by (cases "r = i") (simp_all add: u2_def refcount_del)
    then have "\<forall>r. unat (refcount u2 r) = c r + count_list h r"
      by blast
    from Cons.IH [OF this, of "rm @ [i]"]
    have a: "\<forall>r. unat (refcount (fst (fold release1 h (u2, rm @ [i]))) r) = c r"
      and b: "set (snd (fold release1 h (u2, rm @ [i]))) = set (rm @ [i]) \<union> {r \<in> set h. c r = 0}"
      by blast+
    have "set (rm @ [i]) \<union> {r \<in> set h. c r = 0} = set rm \<union> {r \<in> set (i # h). c r = 0}"
      using zero by auto
    then show ?thesis
      using a b r1 by simp
  next
    case False
    then have nz: "c i + count_list h i \<noteq> 0"
      using u1i by (simp add: unat_eq_0 [symmetric] del: unat_eq_0)
    have r1: "release1 i (u, rm) = (u1, rm)"
      using False by (simp add: release1_def u1_def Let_def)
    have "\<forall>r. unat (refcount u1 r) = c r + count_list h r"
      using u1i u1r by metis
    from Cons.IH [OF this, of rm]
    have a: "\<forall>r. unat (refcount (fst (fold release1 h (u1, rm))) r) = c r"
      and b: "set (snd (fold release1 h (u1, rm))) = set rm \<union> {r \<in> set h. c r = 0}"
      by blast+
    have "c i = 0 \<Longrightarrow> i \<in> set h"
      using nz by (auto simp: count_list_0_iff)
    then have "set rm \<union> {r \<in> set h. c r = 0} = set rm \<union> {r \<in> set (i # h). c r = 0}"
      by auto
    then show ?thesis
      using a b r1 by simp
  qed
qed



lemma lock_usedIndexes: "usedIndexes (snd (lock idxs mgr)) = fold lock1 idxs (usedIndexes mgr)"
  and lock_removed: "removed (snd (lock idxs mgr)) = removed mgr"
  and lock_fst: "fst (lock idxs mgr) = idxs"
  by (simp_all add: lock_def)

lemma release_usedIndexes:
  "usedIndexes (release h mgr) = fst (fold release1 h (usedIndexes mgr, removed mgr))"
  and release_removed:
  "removed (release h mgr) = snd (fold release1 h (usedIndexes mgr, removed mgr))"
  by (simp_all add: release_def Let_def)

text \<open>
  Claim C9. With \<open>held\<close> the releaser handles that are outstanding (locked and not yet
  released, by views, jobs or the manager itself) and every refcount equal to the number
  of outstanding locks on its reader: \<open>lock\<close> adds one to the refcount of a reader for
  each time it is listed and removes no file; \<open>release\<close> of an outstanding handle takes
  those off again, and closes and removes exactly the readers of the handle that no
  other outstanding handle lists. So no file is removed while a lock on it is held, and
  it is removed when its last lock is released.
\<close>

theorem release_pool_refcounting:
  assumes "\<forall>r. unat (refcount (usedIndexes mgr) r) = count_list (concat held) r"
    and "length (concat held) + length idxs < 2 ^ 64"
  shows "(fst (lock idxs mgr) = idxs
          \<and> (\<forall>r. unat (refcount (usedIndexes (snd (lock idxs mgr))) r)
                   = unat (refcount (usedIndexes mgr) r) + count_list idxs r)
          \<and> (\<forall>r. unat (refcount (usedIndexes (snd (lock idxs mgr))) r)
                   = count_list (concat (idxs # held)) r)
          \<and> removed (snd (lock idxs mgr)) = removed mgr)
       \<and> (\<forall>before h after. held = before @ h # after \<longrightarrow>
            (\<forall>r. unat (refcount (usedIndexes (release h mgr)) r)
                   = unat (refcount (usedIndexes mgr) r) - count_list h r)
            \<and> (\<forall>r. unat (refcount (usedIndexes (release h mgr)) r)
                   = count_list (concat (before @ after)) r)
            \<and> set (removed (release h mgr))
                = set (removed mgr) \<union> {r \<in> set h. r \<notin> set (concat (before @ after))})"
proof -
  have bound: "unat (refcount (usedIndexes mgr) r) + count_list idxs r < 2 ^ 64" for r
  proof -
    have "count_list (concat held) r \<le> length (concat held)" "count_list idxs r \<le> length idxs"
      by (rule count_le_length)+
    then show ?thesis
      using assms by (metis add_mono le_less_trans)
  qed
  have lk: "unat (refcount (usedIndexes (snd (lock idxs mgr))) r)
              = unat (refcount (usedIndexes mgr) r) + count_list idxs r" for r
    using fold_lock1_count [of "usedIndexes mgr" idxs r] bound by (simp add: lock_usedIndexes)
  have rel: "(\<forall>r. unat (refcount (usedIndexes (release h mgr)) r)
                   = unat (refcount (usedIndexes mgr) r) - count_list h r)
            \<and> (\<forall>r. unat (refcount (usedIndexes (release h mgr)) r)
                   = count_list (concat (before @ after)) r)
            \<and> set (removed (release h mgr))
                = set (removed mgr) \<union> {r \<in> set h. r \<notin> set (concat (before @ after))}"
    if "held = before @ h # after" for before h after
  proof -
    have "\<forall>r. unat (refcount (usedIndexes mgr) r)
                = count_list (concat (before @ after)) r + count_list h r"
      using assms(1) that by simp
    from fold_release1_count [OF this, of "removed mgr"]
    have a: "\<forall>r. unat (refcount (usedIndexes (release h mgr)) r)
                   = count_list (concat (before @ after)) r"
      and b: "set (removed (release h mgr))
                = set (removed mgr) \<union> {r \<in> set h. count_list (concat (before @ after)) r = 0}"
      by (simp_all add: release_usedIndexes release_removed)
    have "\<forall>r. unat (refcount (usedIndexes (release h mgr)) r)
                = unat (refcount (usedIndexes mgr) r) - count_list h r"
      using a assms(1) that by simp
    moreover have "{r \<in> set h. count_list (concat (before @ after)) r = 0}
                    = {r \<in> set h. r \<notin> set (concat (before @ after))}"
      by (simp only: count_list_0_iff)
    ultimately show ?thesis
      using a b by presburger
  qed
  show ?thesis
    using lk rel assms(1) by (simp add: lock_fst lock_removed)
qed

theorem release_pool_refcounting_witness:
  "(\<forall>r. unat (refcount (usedIndexes pooled) r)
           = count_list (concat [[exampleIndex ''a.idx'' 10, exampleIndex ''b.idx'' 1],
                                 [exampleIndex ''a.idx'' 10]]) r)
   \<and> length (concat [[exampleIndex ''a.idx'' 10, exampleIndex ''b.idx'' 1],
                      [exampleIndex ''a.idx'' 10]]) + length [exampleIndex ''b.idx'' 1]
       < (2 :: nat) ^ 64
   \<and> unat (refcount (usedIndexes (snd (lock [exampleIndex ''b.idx'' 1] pooled)))
            (exampleIndex ''b.idx'' 1)) = 2
   \<and> set (removed (release [exampleIndex ''a.idx'' 10, exampleIndex ''b.idx'' 1] pooled))
       = {exampleIndex ''b.idx'' 1}
   \<and> set (removed (release [exampleIndex ''a.idx'' 10] pooled)) = {}"
proof -
  let ?a = "exampleIndex ''a.idx'' 10" and ?b = "exampleIndex ''b.idx'' 1"
  have ne: "?a \<noteq> ?b"
    by (simp add: exampleIndex_def)
  have inv: "\<forall>r. unat (refcount (usedIndexes pooled) r) = count_list (concat [[?a, ?b], [?a]]) r"
    using ne by (auto simp: pooled_def emptyManager_def refcount_def)
  have bound: "length (concat [[?a, ?b], [?a]]) + length [?b] < (2 :: nat) ^ 64"
    by simp
  note pool = release_pool_refcounting [OF inv bound]
  have lk: "unat (refcount (usedIndexes (snd (lock [?b] pooled))) ?b) = 2"
    using pool ne by (simp add: pooled_def emptyManager_def refcount_def)
  have r1: "set (removed (release [?a, ?b] pooled)) = {?b}"
    using pool [THEN conjunct2, rule_format, of "[]" "[?a, ?b]" "[[?a]]"] ne
    by (auto simp: pooled_def emptyManager_def)
  have r2: "set (removed (release [?a] pooled)) = {}"
    using pool [THEN conjunct2, rule_format, of "[[?a, ?b]]" "[?a]" "[]"] ne
    by (auto simp: pooled_def emptyManager_def)
  show ?thesis
    using inv bound lk r1 r2 by blast
qed

subsection \<open>Merge scheduling\<close>

lemma scanHit_Cons_Suc:
  "scanHit nU k n (idx # rest) (Suc j) = scanHit nU (Suc k) (n - StreamCount idx) rest j"
  by (auto simp: scanHit_def)

lemma scanHit_Cons_0:
  "scanHit nU k n (idx # rest) 0 = (nU \<le> int k \<and> StreamCount idx < n - StreamCount idx)"
  by (auto simp: scanHit_def)

lemma mergeScan_Some_iff:
  "mergeScan nU k n rest = Some i
     \<longleftrightarrow> (\<exists>j. i = k + j \<and> scanHit nU k n rest j \<and> (\<forall>j'<j. \<not> scanHit nU k n rest j'))"
proof (induction rest arbitrary: k n)
  case Nil
  then show ?case by (simp add: scanHit_def)
next
  case (Cons idx rest)
  show ?case
  proof (cases "nU \<le> int k \<and> StreamCount idx < n - StreamCount idx")
    case True
    then have hit0: "scanHit nU k n (idx # rest) 0"
      by (simp add: scanHit_Cons_0)
    have "mergeScan nU k n (idx # rest) = Some k"
      using True by (simp add: Let_def)
    moreover have "(\<exists>j. i = k + j \<and> scanHit nU k n (idx # rest) j
                      \<and> (\<forall>j'<j. \<not> scanHit nU k n (idx # rest) j')) \<longleftrightarrow> i = k"
    proof
      assume "\<exists>j. i = k + j \<and> scanHit nU k n (idx # rest) j
                \<and> (\<forall>j'<j. \<not> scanHit nU k n (idx # rest) j')"
      then obtain j where j: "i = k + j" "\<forall>j'<j. \<not> scanHit nU k n (idx # rest) j'"
        by blast
      have "j = 0"
      proof (rule ccontr)
        assume "j \<noteq> 0"
        then have "0 < j" by simp
        with j(2) hit0 show False by blast
      qed
      with j(1) show "i = k" by simp
    next
      assume "i = k"
      with hit0 show "\<exists>j. i = k + j \<and> scanHit nU k n (idx # rest) j
                \<and> (\<forall>j'<j. \<not> scanHit nU k n (idx # rest) j')"
        by (intro exI [of _ 0]) simp
    qed
    ultimately show ?thesis by auto
  next
    case False
    then have nohit0: "\<not> scanHit nU k n (idx # rest) 0"
      by (simp add: scanHit_Cons_0)
    have "mergeScan nU k n (idx # rest) = mergeScan nU (Suc k) (n - StreamCount idx) rest"
      using False by (auto simp: Let_def)
    moreover have "(\<exists>j. i = k + j \<and> scanHit nU k n (idx # rest) j
                      \<and> (\<forall>j'<j. \<not> scanHit nU k n (idx # rest) j'))
        \<longleftrightarrow> (\<exists>j. i = Suc k + j \<and> scanHit nU (Suc k) (n - StreamCount idx) rest j
                      \<and> (\<forall>j'<j. \<not> scanHit nU (Suc k) (n - StreamCount idx) rest j'))"
      (is "?L \<longleftrightarrow> ?R")
    proof
      assume ?L
      then obtain j where j: "i = k + j" "scanHit nU k n (idx # rest) j"
        "\<forall>j'<j. \<not> scanHit nU k n (idx # rest) j'"
        by blast
      from j(2) nohit0 obtain j0 where j0: "j = Suc j0"
        by (cases j) auto
      have "\<forall>j'<j0. \<not> scanHit nU (Suc k) (n - StreamCount idx) rest j'"
        using j(3) j0 scanHit_Cons_Suc [of nU k n idx rest] by auto
      then show ?R
        using j(1,2) j0 scanHit_Cons_Suc [of nU k n idx rest j0] by (intro exI [of _ j0]) simp
    next
      assume ?R
      then obtain j where j: "i = Suc k + j" "scanHit nU (Suc k) (n - StreamCount idx) rest j"
        "\<forall>j'<j. \<not> scanHit nU (Suc k) (n - StreamCount idx) rest j'"
        by blast
      have "\<not> scanHit nU k n (idx # rest) j'" if "j' < Suc j" for j'
      proof (cases j')
        case 0
        then show ?thesis using nohit0 by simp
      next
        case (Suc j'')
        then show ?thesis
          using that j(3) scanHit_Cons_Suc [of nU k n idx rest j''] by simp
      qed
      then show ?L
        using j(1,2) scanHit_Cons_Suc [of nU k n idx rest j] by (intro exI [of _ "Suc j"]) simp
    qed
    ultimately show ?thesis
      using Cons.IH [of "Suc k" "n - StreamCount idx"] by simp
  qed
qed

lemma scanHit_mergeCandidate:
  assumes "nStreams mgr = (\<Sum>idx\<leftarrow>indexes mgr. StreamCount idx)"
  shows "scanHit (nUnmergeableIndexes mgr) 0 (nStreams mgr) (indexes mgr) j = mergeCandidate mgr j"
proof -
  have "(\<Sum>idx\<leftarrow>indexes mgr. StreamCount idx)
          = (\<Sum>idx\<leftarrow>take (Suc j) (indexes mgr). StreamCount idx)
            + (\<Sum>idx\<leftarrow>drop (Suc j) (indexes mgr). StreamCount idx)"
    by (metis append_take_drop_id map_append sum_list_append)
  then show ?thesis
    using assms by (auto simp: scanHit_def mergeCandidate_def)
qed

lemma mergeScan_candidate:
  assumes "nStreams mgr = (\<Sum>idx\<leftarrow>indexes mgr. StreamCount idx)"
  shows "mergeScan (nUnmergeableIndexes mgr) 0 (nStreams mgr) (indexes mgr)
           = (if \<exists>i. mergeCandidate mgr i then Some (LEAST i. mergeCandidate mgr i) else None)"
proof (cases "\<exists>i. mergeCandidate mgr i")
  case True
  define i where "i = (LEAST i. mergeCandidate mgr i)"
  have "mergeCandidate mgr i"
    using True unfolding i_def by (metis LeastI)
  moreover have "\<forall>j<i. \<not> mergeCandidate mgr j"
    unfolding i_def using not_less_Least by blast
  ultimately have "mergeScan (nUnmergeableIndexes mgr) 0 (nStreams mgr) (indexes mgr) = Some i"
    using mergeScan_Some_iff [of "nUnmergeableIndexes mgr" 0 "nStreams mgr" "indexes mgr" i]
    by (simp add: scanHit_mergeCandidate [OF assms])
  then show ?thesis
    using True by (simp add: i_def)
next
  case False
  have "mergeScan (nUnmergeableIndexes mgr) 0 (nStreams mgr) (indexes mgr) \<noteq> Some i" for i
    using False mergeScan_Some_iff [of "nUnmergeableIndexes mgr" 0 "nStreams mgr" "indexes mgr" i]
    by (simp add: scanHit_mergeCandidate [OF assms])
  then show ?thesis
    using False by (cases "mergeScan (nUnmergeableIndexes mgr) 0 (nStreams mgr) (indexes mgr)") auto
qed

text \<open>
  Claim C4. \<open>startMergeJobIfNeeded\<close> is the only place where a merge job starts. It
  starts none while a merge or tagging job runs or while some tag has a non-empty
  \<open>Uncertain\<close>; otherwise it starts one at the first position that is a merge candidate
  (at or after \<open>nUnmergeableIndexes\<close>, with fewer streams than all later indexes
  together), over the indexes from that position onward, and none when there is no
  candidate. \<open>mgr.nStreams\<close> is the total stream count of \<open>mgr.indexes\<close>, as every
  import and merge keeps it.
\<close>

theorem startMergeJobIfNeeded_gated:
  assumes "nStreams mgr = (\<Sum>idx\<leftarrow>indexes mgr. StreamCount idx)"
  shows "startMergeJobIfNeeded mgr =
     (if mergeJobRunning mgr \<or> taggingJobRunning mgr
         \<or> (\<exists>(tn, t)\<in>set (tags mgr). \<not> IsZero (Uncertain t))
      then mgr
      else if \<exists>i. mergeCandidate mgr i
      then
        (let i = (LEAST i. mergeCandidate mgr i)
         in (snd (lock (drop i (indexes mgr)) mgr))
              \<lparr>mergeJobRunning := True,
               spawned := spawned mgr
                 @ [MergeIndexesJob i (drop i (indexes mgr)) (drop i (indexes mgr))]\<rparr>)
      else mgr)"
proof -
  have tags_iff: "(\<exists>t\<in>set (map snd (tags mgr)). \<not> IsZero (Uncertain t))
                    \<longleftrightarrow> (\<exists>(tn, t)\<in>set (tags mgr). \<not> IsZero (Uncertain t))"
    by force
  show ?thesis
  proof (cases "\<exists>i. mergeCandidate mgr i")
    case True
    then have "mergeScan (nUnmergeableIndexes mgr) 0 (nStreams mgr) (indexes mgr)
                 = Some (LEAST i. mergeCandidate mgr i)"
      using mergeScan_candidate [OF assms] by auto
    then show ?thesis
      using True unfolding startMergeJobIfNeeded_def tags_iff
      by (simp add: getIndexesCopy_def lock_def Let_def)
  next
    case False
    then have "mergeScan (nUnmergeableIndexes mgr) 0 (nStreams mgr) (indexes mgr) = None"
      using mergeScan_candidate [OF assms] by auto
    then show ?thesis
      using False unfolding startMergeJobIfNeeded_def tags_iff
      by simp
  qed
qed

theorem startMergeJobIfNeeded_gated_witness:
  "nStreams threeIndexes = (\<Sum>idx\<leftarrow>indexes threeIndexes. StreamCount idx)
   \<and> spawned (startMergeJobIfNeeded threeIndexes)
       = [MergeIndexesJob 1 [exampleIndex ''b.idx'' 1, exampleIndex ''c.idx'' 5]
            [exampleIndex ''b.idx'' 1, exampleIndex ''c.idx'' 5]]
   \<and> mergeJobRunning (startMergeJobIfNeeded threeIndexes)
   \<and> startMergeJobIfNeeded (threeIndexes\<lparr>taggingJobRunning := True\<rparr>)
       = threeIndexes\<lparr>taggingJobRunning := True\<rparr>"
proof -
  have h: "nStreams threeIndexes = (\<Sum>idx\<leftarrow>indexes threeIndexes. StreamCount idx)"
    by (simp add: threeIndexes_def emptyManager_def exampleIndex_def)
  have h': "nStreams (threeIndexes\<lparr>taggingJobRunning := True\<rparr>)
              = (\<Sum>idx\<leftarrow>indexes (threeIndexes\<lparr>taggingJobRunning := True\<rparr>). StreamCount idx)"
    using h by simp
  have c1: "mergeCandidate threeIndexes 1"
    by (simp add: mergeCandidate_def threeIndexes_def emptyManager_def exampleIndex_def)
  have c0: "\<not> mergeCandidate threeIndexes 0"
    by (simp add: mergeCandidate_def threeIndexes_def emptyManager_def exampleIndex_def)
  have least: "(LEAST i. mergeCandidate threeIndexes i) = 1"
  proof (rule Least_equality)
    show "mergeCandidate threeIndexes 1" by (rule c1)
  next
    fix y assume "mergeCandidate threeIndexes y"
    with c0 have "y \<noteq> 0" by (cases "y = 0") auto
    then show "1 \<le> y" by simp
  qed
  have ex: "\<exists>i. mergeCandidate threeIndexes i"
    using c1 by blast
  have free: "\<not> mergeJobRunning threeIndexes" "\<not> taggingJobRunning threeIndexes"
    "tags threeIndexes = []" "spawned threeIndexes = []"
    "drop 1 (indexes threeIndexes) = [exampleIndex ''b.idx'' 1, exampleIndex ''c.idx'' 5]"
    by (simp_all add: threeIndexes_def emptyManager_def)
  show ?thesis
    using h startMergeJobIfNeeded_gated [OF h] startMergeJobIfNeeded_gated [OF h'] ex least free
    by (simp add: Let_def)
qed

subsection \<open>Completion of a merge\<close>

lemma release_fields:
  "indexes (release h mgr) = indexes mgr"
  "nUnmergeableIndexes (release h mgr) = nUnmergeableIndexes mgr"
  "tags (release h mgr) = tags mgr"
  "nStreams (release h mgr) = nStreams mgr"
  "spawned (release h mgr) = spawned mgr"
  by (simp_all add: release_def Let_def)

lemma lock_fields:
  "indexes (snd (lock h mgr)) = indexes mgr"
  "nUnmergeableIndexes (snd (lock h mgr)) = nUnmergeableIndexes mgr"
  "tags (snd (lock h mgr)) = tags mgr"
  "nStreams (snd (lock h mgr)) = nStreams mgr"
  "nPackets (snd (lock h mgr)) = nPackets mgr"
  by (simp_all add: lock_def)

lemma startMergeJobIfNeeded_fields:
  "indexes (startMergeJobIfNeeded mgr) = indexes mgr"
  "nUnmergeableIndexes (startMergeJobIfNeeded mgr) = nUnmergeableIndexes mgr"
  "tags (startMergeJobIfNeeded mgr) = tags mgr"
  by (simp_all add: startMergeJobIfNeeded_def getIndexesCopy_def lock_def Let_def
        split: option.splits)

lemma mergeIndexesJob_failed:
  assumes "merged = [] \<or> err \<noteq> None"
  shows "\<exists>mgr'. mergeIndexesJob offset idxs releaser (merged, err) mgr = Some mgr'
           \<and> nUnmergeableIndexes mgr' = nUnmergeableIndexes mgr + 1
           \<and> indexes mgr' = indexes mgr"
  using assms
  by (auto simp: mergeIndexesJob_def Let_def release_fields startMergeJobIfNeeded_fields)

lemma mergeIndexesJob_merged:
  assumes "\<not> (merged = [] \<or> err \<noteq> None)" and "offset + length idxs \<le> length (indexes mgr)"
  shows "\<exists>mgr'. mergeIndexesJob offset idxs releaser (merged, err) mgr = Some mgr'
           \<and> indexes mgr' = take offset (indexes mgr) @ merged
                               @ drop (offset + length idxs) (indexes mgr)
           \<and> nUnmergeableIndexes mgr' = nUnmergeableIndexes mgr + (int (length merged) - 1)
           \<and> (\<exists>m. mgr' = release releaser (startMergeJobIfNeeded m)
                 \<and> usedIndexes m
                      = usedIndexes (snd (lock merged
                          (release (take (length idxs) (drop offset (indexes mgr))) mgr)))
                 \<and> removed m
                      = removed (snd (lock merged
                          (release (take (length idxs) (drop offset (indexes mgr))) mgr))))"
proof -
  let ?old = "take (length idxs) (drop offset (indexes mgr))"
  let ?m2 = "snd (lock merged (release ?old mgr))"
  let ?m = "?m2\<lparr>indexes := take offset (indexes ?m2)
                                   @ (merged @ drop (offset + length idxs) (indexes ?m2)),
                nUnmergeableIndexes := nUnmergeableIndexes ?m2 + (int (length merged) - 1),
                nStreams := nStreams ?m2
                  + ((\<Sum>idx\<leftarrow>merged. StreamCount idx) - (\<Sum>idx\<leftarrow>idxs. StreamCount idx)),
                nPackets := nPackets ?m2
                  + ((\<Sum>idx\<leftarrow>merged. PacketCount idx) - (\<Sum>idx\<leftarrow>idxs. PacketCount idx)),
                mergeJobRunning := False\<rparr>"
  have run: "mergeIndexesJob offset idxs releaser (merged, err) mgr
               = Some (release releaser (startMergeJobIfNeeded ?m))"
    using assms by (simp add: mergeIndexesJob_def Let_def)
  show ?thesis
    apply (rule exI [of _ "release releaser (startMergeJobIfNeeded ?m)"])
    apply (simp only: run simp_thms release_fields startMergeJobIfNeeded_fields)
    apply (intro conjI)
      apply (simp add: lock_fields release_fields)
     apply (simp add: lock_fields release_fields)
    apply (rule exI [of _ ?m])
    apply simp
    done
qed

text \<open>
  Claim C5, amended. When the closure of a merge job over the slice at \<open>offset\<close> runs:
  if the merge failed or produced no index, \<open>nUnmergeableIndexes\<close> goes up by one and
  the index list stays as it is; otherwise the slice \<open>[offset, offset + len(inputs))\<close> of
  the index list is replaced by the merge result, the old readers are released and then
  the new ones locked, and \<open>nUnmergeableIndexes\<close> is increased by
  \<open>len(mergedResult) - 1\<close>.
\<close>

theorem mergeIndexesJob_completion:
  assumes "offset + length idxs \<le> length (indexes mgr)"
  shows "\<exists>mgr'. mergeIndexesJob offset idxs releaser (merged, err) mgr = Some mgr'
     \<and> (if merged = [] \<or> err \<noteq> None
        then nUnmergeableIndexes mgr' = nUnmergeableIndexes mgr + 1 \<and> indexes mgr' = indexes mgr
        else indexes mgr' = take offset (indexes mgr) @ merged
                              @ drop (offset + length idxs) (indexes mgr)
           \<and> nUnmergeableIndexes mgr' = nUnmergeableIndexes mgr + (int (length merged) - 1)
           \<and> (\<exists>m. mgr' = release releaser (startMergeJobIfNeeded m)
                 \<and> usedIndexes m
                      = usedIndexes (snd (lock merged
                          (release (take (length idxs) (drop offset (indexes mgr))) mgr)))
                 \<and> removed m
                      = removed (snd (lock merged
                          (release (take (length idxs) (drop offset (indexes mgr))) mgr)))))"
proof (cases "merged = [] \<or> err \<noteq> None")
  case True
  from mergeIndexesJob_failed [OF True, of offset idxs releaser mgr] show ?thesis
    using True by auto
next
  case False
  from mergeIndexesJob_merged [OF False assms, of releaser] show ?thesis
    using False by auto
qed

theorem mergeIndexesJob_completion_witness:
  "1 + length [exampleIndex ''b.idx'' 1, exampleIndex ''c.idx'' 5] \<le> length (indexes mergingFrom1)
   \<and> map_option indexes
        (mergeIndexesJob 1 [exampleIndex ''b.idx'' 1, exampleIndex ''c.idx'' 5]
           [exampleIndex ''b.idx'' 1, exampleIndex ''c.idx'' 5]
           ([exampleIndex ''d.idx'' 6], None) mergingFrom1)
       = Some [exampleIndex ''a.idx'' 10, exampleIndex ''d.idx'' 6]
   \<and> map_option nUnmergeableIndexes
        (mergeIndexesJob 1 [exampleIndex ''b.idx'' 1, exampleIndex ''c.idx'' 5]
           [exampleIndex ''b.idx'' 1, exampleIndex ''c.idx'' 5]
           ([exampleIndex ''d.idx'' 6], None) mergingFrom1)
       = Some 1
   \<and> map_option nUnmergeableIndexes
        (mergeIndexesJob 1 [exampleIndex ''b.idx'' 1, exampleIndex ''c.idx'' 5]
           [exampleIndex ''b.idx'' 1, exampleIndex ''c.idx'' 5]
           ([], None) mergingFrom1)
       = Some 2"
proof -
  have h: "1 + length [exampleIndex ''b.idx'' 1, exampleIndex ''c.idx'' 5]
             \<le> length (indexes mergingFrom1)"
    by (simp add: mergingFrom1_def threeIndexes_def emptyManager_def)
  have ix: "indexes mergingFrom1
              = [exampleIndex ''a.idx'' 10, exampleIndex ''b.idx'' 1, exampleIndex ''c.idx'' 5]"
    and nu: "nUnmergeableIndexes mergingFrom1 = 1"
    by (simp_all add: mergingFrom1_def threeIndexes_def emptyManager_def)
  show ?thesis
    using h ix nu
      mergeIndexesJob_completion [OF h, of "[exampleIndex ''b.idx'' 1, exampleIndex ''c.idx'' 5]"
        "[exampleIndex ''d.idx'' 6]" None]
      mergeIndexesJob_completion [OF h, of "[exampleIndex ''b.idx'' 1, exampleIndex ''c.idx'' 5]"
        "[]" None]
    by auto
qed

text \<open>
  The claim as stated has \<open>nUnmergeableIndexes\<close> set to \<open>len(mergedResult) - 1\<close>. After
  a failed merge the counter is 1; a merge from position 1 that yields one index leaves
  it at 1, not at 0.
\<close>

theorem mergeIndexesJob_sets_counterexample:
  "map_option nUnmergeableIndexes
     (mergeIndexesJob 1 [exampleIndex ''b.idx'' 1, exampleIndex ''c.idx'' 5]
        [exampleIndex ''b.idx'' 1, exampleIndex ''c.idx'' 5]
        ([exampleIndex ''d.idx'' 6], None) mergingFrom1)
     \<noteq> Some (int (length [exampleIndex ''d.idx'' 6]) - 1)"
proof -
  have h: "1 + length [exampleIndex ''b.idx'' 1, exampleIndex ''c.idx'' 5]
             \<le> length (indexes mergingFrom1)"
    and nu: "nUnmergeableIndexes mergingFrom1 = 1"
    by (simp_all add: mergingFrom1_def threeIndexes_def emptyManager_def)
  have ok: "\<not> ([exampleIndex ''d.idx'' 6] = [] \<or> (None :: error option) \<noteq> None)"
    by simp
  show ?thesis
    using nu mergeIndexesJob_merged [OF ok h, of "[exampleIndex ''b.idx'' 1, exampleIndex ''c.idx'' 5]"]
    by auto
qed

subsection \<open>Adding a tag\<close>

lemma map_of_None_iff: "map_of al k = None \<longleftrightarrow> k \<notin> fst ` set al"
  by (simp add: map_of_eq_None_iff)

lemma update_append: "k \<notin> fst ` set al \<Longrightarrow> AList.update k v al = al @ [(k, v)]"
  by (induction al) auto

lemma HasPrefix_append: "HasPrefix str pre \<longleftrightarrow> (\<exists>rest. str = pre @ rest)"
  unfolding HasPrefix_def by (metis append_eq_conv_conj)

lemma map_of_key: "k \<in> fst ` set al \<Longrightarrow> \<exists>v. map_of al k = Some v"
  using map_of_None_iff [of al k] by (cases "map_of al k") auto

lemma referencedCertain_closed:
  "set refs \<subseteq> fst ` set tgs \<Longrightarrow> referencedCertain tgs refs \<noteq> None"
proof (induction refs)
  case Nil
  then show ?case by simp
next
  case (Cons r refs)
  then obtain rt where "map_of tgs r = Some rt"
    using map_of_key [of r tgs] by auto
  then show ?case
    using Cons by auto
qed

lemma collectTagDetails_closed:
  "set refs \<subseteq> fst ` set tgs \<Longrightarrow> collectTagDetails tgs refs acc \<noteq> None"
proof (induction refs arbitrary: acc)
  case Nil
  then show ?case by simp
next
  case (Cons r refs)
  then obtain rt where "map_of tgs r = Some rt"
    using map_of_key [of r tgs] by auto
  then show ?case
    using Cons by simp
qed

lemma pickTag_closed:
  assumes "referencesClosed tgs"
  shows "pickTag tgs order \<noteq> None
         \<and> (\<forall>n t. pickTag tgs order = Some (Some (n, t))
                \<longrightarrow> set (referencedTags t) \<subseteq> fst ` set tgs)"
proof (induction order)
  case Nil
  then show ?case by simp
next
  case (Cons k order)
  show ?case
  proof (cases "map_of tgs k")
    case None
    then show ?thesis using Cons by simp
  next
    case (Some t')
    then have "(k, t') \<in> set tgs"
      by (rule map_of_SomeD)
    then have refs: "set (referencedTags t') \<subseteq> fst ` set tgs"
      using assms unfolding referencesClosed_def by blast
    then obtain c where c: "referencedCertain tgs (referencedTags t') = Some c"
      using referencedCertain_closed by blast
    show ?thesis
    proof (cases "IsZero (Uncertain t')")
      case True
      then show ?thesis using Cons Some by simp
    next
      case False
      then show ?thesis
        using Cons Some c refs by (cases c) simp_all
    qed
  qed
qed

lemma startTaggingJobIfNeeded_closed:
  assumes "referencesClosed (tags mgr)"
  shows "\<exists>mgr'. startTaggingJobIfNeeded order mgr = Some mgr' \<and> tags mgr' = tags mgr"
proof (cases "taggingJobRunning mgr")
  case True
  then show ?thesis by (simp add: startTaggingJobIfNeeded_def)
next
  case False
  show ?thesis
  proof (cases "pickTag (tags mgr) order")
    case None
    then show ?thesis using pickTag_closed [OF assms] by blast
  next
    case (Some picked)
    show ?thesis
    proof (cases picked)
      case None
      then show ?thesis using Some False by (simp add: startTaggingJobIfNeeded_def)
    next
      case (Some nt)
      obtain n t where nt: "nt = (n, t)" by (cases nt)
      have "set (referencedTags t) \<subseteq> fst ` set (tags mgr)"
        using pickTag_closed [OF assms, of order] \<open>pickTag (tags mgr) order = Some picked\<close> Some nt
        by blast
      then obtain td where "collectTagDetails (tags mgr) (referencedTags t) [] = Some td"
        using collectTagDetails_closed by blast
      then show ?thesis
        using \<open>pickTag (tags mgr) order = Some picked\<close> Some nt False
        by (simp add: startTaggingJobIfNeeded_def getIndexesCopy_def lock_def Let_def)
    qed
  qed
qed

lemma find_unknown_None:
  "List.find (\<lambda>t. map_of tgs t = None) refs = None \<longleftrightarrow> set refs \<subseteq> fst ` set tgs"
  by (auto simp: find_None_iff map_of_None_iff)

lemma SplitN2_known:
  "SplitN2 (''tag/'' @ rest) = [''tag'', rest]"
  "SplitN2 (''service/'' @ rest) = [''service'', rest]"
  "SplitN2 (''mark/'' @ rest) = [''mark'', rest]"
  "SplitN2 (''generated/'' @ rest) = [''generated'', rest]"
  by (simp_all add: SplitN2_def)

lemma SplitN2_prefixed:
  assumes "HasPrefix name ''tag/'' \<or> HasPrefix name ''service/''
             \<or> HasPrefix name ''mark/'' \<or> HasPrefix name ''generated/''"
  shows "\<not> length (SplitN2 name) \<le> 1
         \<and> (SplitN2 name ! 1 = [] \<longleftrightarrow> name \<in> {''tag/'', ''service/'', ''mark/'', ''generated/''})"
proof -
  consider rest where "name = ''tag/'' @ rest" | rest where "name = ''service/'' @ rest"
    | rest where "name = ''mark/'' @ rest" | rest where "name = ''generated/'' @ rest"
    using assms unfolding HasPrefix_append by blast
  then show ?thesis
  proof cases
    case 1
    then show ?thesis
      unfolding 1 SplitN2_known by simp
  next
    case 2
    then show ?thesis
      unfolding 2 SplitN2_known by simp
  next
    case 3
    then show ?thesis
      unfolding 3 SplitN2_known by simp
  next
    case 4
    then show ?thesis
      unfolding 4 SplitN2_known by simp
  qed
qed


lemma referencedTags_new:
  "referencedTags \<lparr>Matches = m, Uncertain = u, Conditions = c, tagDefinition = d,
                    features = f, color = cl, converters = cs\<rparr>
     = MainTags f @ SubQueryTags f"
  by (simp add: referencedTags_def)

lemma referencesClosed_append:
  assumes "referencesClosed tgs" and "set (referencedTags nt) \<subseteq> fst ` set tgs"
  shows "referencesClosed (tgs @ [(name, nt)])"
  using assms unfolding referencesClosed_def by auto

lemma referencedCertain_list_all:
  "referencedCertain tgs refs = Some b
     \<Longrightarrow> b = list_all (\<lambda>r. case map_of tgs r of None \<Rightarrow> False | Some rt \<Rightarrow> IsZero (Uncertain rt)) refs"
  by (induction refs) (auto split: option.splits if_splits)

lemma pickTag_taggable:
  "pickTag tgs order = Some (Some (n, t)) \<Longrightarrow> map_of tgs n = Some t \<and> taggable tgs t"
proof (induction order)
  case Nil
  then show ?case by simp
next
  case (Cons k order)
  show ?case
  proof (cases "map_of tgs k")
    case None
    then show ?thesis using Cons by simp
  next
    case (Some tk)
    show ?thesis
    proof (cases "IsZero (Uncertain tk)")
      case True
      then show ?thesis using Cons Some by simp
    next
      case False
      show ?thesis
      proof (cases "referencedCertain tgs (referencedTags tk)")
        case None
        then show ?thesis using Cons.prems Some False by simp
      next
        case rc: (Some b)
        show ?thesis
        proof (cases b)
          case True
          then have "n = k" "t = tk"
            using Cons.prems Some False rc by simp_all
          then show ?thesis
            using Some False referencedCertain_list_all [OF rc] True by (simp add: taggable_def)
        next
          case False
          then show ?thesis using Cons Some \<open>\<not> IsZero (Uncertain tk)\<close> rc by simp
        qed
      qed
    qed
  qed
qed

lemma pickTag_none:
  "pickTag tgs order = Some None \<Longrightarrow> k \<in> set order \<Longrightarrow> map_of tgs k = Some t \<Longrightarrow> \<not> taggable tgs t"
proof (induction order)
  case Nil
  then show ?case by simp
next
  case (Cons k' order)
  show ?case
  proof (cases "map_of tgs k'")
    case None
    then show ?thesis using Cons by auto
  next
    case (Some tk)
    show ?thesis
    proof (cases "IsZero (Uncertain tk)")
      case True
      then show ?thesis using Cons Some by (auto simp: taggable_def)
    next
      case False
      show ?thesis
      proof (cases "referencedCertain tgs (referencedTags tk)")
        case None
        then show ?thesis using Cons.prems Some False by simp
      next
        case rc: (Some b)
        show ?thesis
        proof (cases b)
          case True
          then show ?thesis using Cons.prems Some False rc by simp
        next
          case bf: False
          then have rest: "pickTag tgs order = Some None"
            using Cons.prems(1) Some False rc by simp
          show ?thesis
          proof (cases "k = k'")
            case True
            then show ?thesis
              using Cons.prems(3) Some referencedCertain_list_all [OF rc] bf
              by (simp add: taggable_def)
          next
            case False
            then show ?thesis using Cons.IH [OF rest] Cons.prems by simp
          qed
        qed
      qed
    qed
  qed
qed

lemma collectTagDetails_snapshot:
  "collectTagDetails tgs refs acc = Some td
     \<Longrightarrow> map_of td r = (if r \<in> set refs then map_option TagDetails.truncate (map_of tgs r)
                       else map_of acc r)"
proof (induction refs arbitrary: acc)
  case Nil
  then show ?case by simp
next
  case (Cons k refs)
  then obtain rt where rt: "map_of tgs k = Some rt"
    and rec: "collectTagDetails tgs refs (AList.update k (TagDetails.truncate rt) acc) = Some td"
    by (auto split: option.splits)
  show ?case
    using Cons.IH [OF rec] rt by (auto simp: update_conv')
qed

lemma startTaggingJobIfNeeded_spec:
  assumes "referencesClosed (tags mgr)" and "fst ` set (tags mgr) \<subseteq> set order"
  shows "\<exists>mgr'. startTaggingJobIfNeeded order mgr = Some mgr' \<and> taggingRescheduled mgr mgr'"
proof (cases "taggingJobRunning mgr")
  case True
  then show ?thesis by (simp add: startTaggingJobIfNeeded_def taggingRescheduled_def)
next
  case False
  show ?thesis
  proof (cases "pickTag (tags mgr) order")
    case None
    then show ?thesis using pickTag_closed [OF assms(1)] by blast
  next
    case (Some picked)
    show ?thesis
    proof (cases picked)
      case None
      have "\<not> taggable (tags mgr) t" if "map_of (tags mgr) n = Some t" for n t
      proof -
        have "n \<in> set order"
          using that assms(2) map_of_None_iff [of "tags mgr" n] by auto
        then show ?thesis
          using pickTag_none [of "tags mgr" order n t] Some None that by simp
      qed
      then have "\<not> (\<exists>n t. map_of (tags mgr) n = Some t \<and> taggable (tags mgr) t)"
        by blast
      then show ?thesis
        using Some None False by (simp add: startTaggingJobIfNeeded_def taggingRescheduled_def)
    next
      case (Some nt)
      obtain n t where nt: "nt = (n, t)" by (cases nt)
      have pk: "pickTag (tags mgr) order = Some (Some (n, t))"
        using \<open>pickTag (tags mgr) order = Some picked\<close> Some nt by simp
      have el: "map_of (tags mgr) n = Some t" "taggable (tags mgr) t"
        using pickTag_taggable [OF pk] by simp_all
      have "set (referencedTags t) \<subseteq> fst ` set (tags mgr)"
        using pickTag_closed [OF assms(1), of order] pk by blast
      then obtain td where td: "collectTagDetails (tags mgr) (referencedTags t) [] = Some td"
        using collectTagDetails_closed by blast
      have snap: "\<forall>r. map_of td r
                      = (if r \<in> set (referencedTags t)
                         then map_option TagDetails.truncate (map_of (tags mgr) r) else None)"
        using collectTagDetails_snapshot [OF td] by simp
      have run: "startTaggingJobIfNeeded order mgr
                   = Some ((snd (lock (indexes mgr) mgr))
                       \<lparr>updatedStreamsDuringTaggingJob := [],
                        addedStreamsDuringTaggingJob := [],
                        taggingJobRunning := True,
                        spawned := spawned mgr
                          @ [UpdateTagJob n t td (mconverters mgr) (indexes mgr) (indexes mgr)]\<rparr>)"
        using pk td False
        by (simp add: startTaggingJobIfNeeded_def getIndexesCopy_def lock_def Let_def)
      have ex: "\<exists>n t. map_of (tags mgr) n = Some t \<and> taggable (tags mgr) t"
        using el by blast
      have "taggingRescheduled mgr ((snd (lock (indexes mgr) mgr))
                       \<lparr>updatedStreamsDuringTaggingJob := [],
                        addedStreamsDuringTaggingJob := [],
                        taggingJobRunning := True,
                        spawned := spawned mgr
                          @ [UpdateTagJob n t td (mconverters mgr) (indexes mgr) (indexes mgr)]\<rparr>)"
        unfolding taggingRescheduled_def using False ex el snap
        by (simp only: if_False simp_thms) (intro exI [of _ n] exI [of _ t] exI [of _ td] conjI refl; assumption)
      then show ?thesis
        unfolding run by blast
    qed
  qed
qed

lemma taggingRescheduled_tags:
  "taggingRescheduled m m' \<Longrightarrow> tags m' = tags m"
  by (auto simp: taggingRescheduled_def lock_def split: if_splits)

text \<open>
  Claim C6. With every referenced tag present in the tag map, and the range of
  \<open>startTaggingJobIfNeeded\<close> visiting every key of the map, \<open>AddTag\<close> returns; it
  returns an error exactly for the spec's reasons, and then leaves the manager as it
  was. Otherwise the tag is added: a mark or generated tag with the explicit id set as
  its matches and an empty \<open>Uncertain\<close>, and nothing else changes; any other tag with
  \<open>Uncertain\<close> set to \<open>allStreams\<close>, and tagging is rescheduled on the new tag map: unless
  a tagging job runs already or no tag can be picked, a tagging job is started for a
  tag with a non-empty \<open>Uncertain\<close> whose referenced tags are all settled.
\<close>

theorem AddTag_rejects_or_adds:
  assumes "referencesClosed (tags mgr)"
    and "insert name (fst ` set (tags mgr)) \<subseteq> set tagOrder"
  shows "\<exists>res mgr'. AddTag Parse tagOrder name clr queryString mgr = Some (res, mgr')
     \<and> (res \<noteq> None \<longleftrightarrow> addTagRejected Parse name queryString mgr)
     \<and> (res \<noteq> None \<longrightarrow> mgr' = mgr)
     \<and> (res = None \<longrightarrow>
          (\<exists>q. Parse queryString = Inr q
             \<and> tags mgr' = tags mgr
                  @ [(name, \<lparr>Matches = (if isMarkName name
                                         then fst (StreamIDs (QConditions q) (nextStreamID mgr))
                                         else []),
                            Uncertain = (if isMarkName name then [] else allStreams mgr),
                            Conditions = QConditions q, tagDefinition = queryString,
                            features = Features (QConditions q), color = clr,
                            converters = []\<rparr>)]
             \<and> (if isMarkName name then mgr' = mgr\<lparr>tags := tags mgr'\<rparr>
                 else taggingRescheduled (mgr\<lparr>tags := tags mgr'\<rparr>) mgr')))"
proof (cases "HasPrefix name ''tag/'' \<or> HasPrefix name ''service/''
                \<or> HasPrefix name ''mark/'' \<or> HasPrefix name ''generated/''")
  case False
  then show ?thesis
    by (simp add: AddTag_def addTagRejected_def Let_def)
next
  case prefixed: True
  note split = SplitN2_prefixed [OF prefixed]
  show ?thesis
  proof (cases "name \<in> {''tag/'', ''service/'', ''mark/'', ''generated/''}")
    case True
    then have "SplitN2 name ! 1 = []"
      using split by blast
    then show ?thesis
      using split True prefixed by (elim disjE) (simp_all add: AddTag_def addTagRejected_def Let_def)
  next
    case named: False
    then have sub: "SplitN2 name ! 1 \<noteq> []"
      using split by blast
    show ?thesis
    proof (cases "Parse queryString")
      case (Inl err)
      then show ?thesis
        using split sub Inl prefixed by (elim disjE) (simp_all add: AddTag_def addTagRejected_def Let_def)
    next
      case (Inr q)
      let ?f = "Features (QConditions q)"
      let ?nt = "\<lparr>Matches = [], Uncertain = [], Conditions = QConditions q,
                 tagDefinition = queryString, features = ?f, color = clr, converters = []\<rparr>"
      have start: "AddTag Parse tagOrder name clr queryString mgr =
          (if FeatureFilterTimeRelative \<in> MainFeatures ?f \<union> SubQueryFeatures ?f
           then Some (Some ErrRelativeTimes, mgr)
           else if Grouping q \<noteq> None then Some (Some ErrGrouping, mgr)
           else if name \<in> set (MainTags ?f @ SubQueryTags ?f) then Some (Some ErrSelfReference, mgr)
           else if isMarkName name \<and> \<not> snd (StreamIDs (QConditions q) 0)
           then Some (Some ErrMarkOnlyID, mgr)
           else AddTag_job tagOrder name (isMarkName name) q ?nt mgr)"
        using split sub Inr prefixed
        by (elim disjE) (simp_all add: AddTag_def Let_def referencedTags_new isMarkName_def)
      have rej: "addTagRejected Parse name queryString mgr \<longleftrightarrow>
          (FeatureFilterTimeRelative \<in> MainFeatures ?f \<union> SubQueryFeatures ?f
           \<or> Grouping q \<noteq> None
           \<or> name \<in> set (MainTags ?f @ SubQueryTags ?f)
           \<or> isMarkName name \<and> \<not> snd (StreamIDs (QConditions q) 0)
           \<or> name \<in> fst ` set (tags mgr)
           \<or> \<not> set (MainTags ?f @ SubQueryTags ?f) \<subseteq> fst ` set (tags mgr))"
        using named Inr prefixed
        by (elim disjE) (auto simp: addTagRejected_def isMarkName_def)
      show ?thesis
      proof (cases "FeatureFilterTimeRelative \<in> MainFeatures ?f \<union> SubQueryFeatures ?f
           \<or> Grouping q \<noteq> None
           \<or> name \<in> set (MainTags ?f @ SubQueryTags ?f)
           \<or> isMarkName name \<and> \<not> snd (StreamIDs (QConditions q) 0)")
        case True
        then show ?thesis
          unfolding start rej by auto
      next
        case pre: False
        then have start2: "AddTag Parse tagOrder name clr queryString mgr
                             = AddTag_job tagOrder name (isMarkName name) q ?nt mgr"
          unfolding start by auto
        show ?thesis
        proof (cases "name \<in> fst ` set (tags mgr)")
          case True
          then have "map_of (tags mgr) name \<noteq> None"
            by (simp add: map_of_None_iff)
          then show ?thesis
            unfolding start2 rej using True by (simp add: AddTag_job_def)
        next
          case fresh: False
          then have nokey: "map_of (tags mgr) name = None"
            by (simp add: map_of_None_iff)
          show ?thesis
          proof (cases "set (MainTags ?f @ SubQueryTags ?f) \<subseteq> fst ` set (tags mgr)")
            case False
            then obtain r where
              "List.find (\<lambda>t. map_of (tags mgr) t = None) (referencedTags ?nt) = Some r"
              using find_unknown_None [of "tags mgr" "referencedTags ?nt"]
              by (auto simp: referencedTags_new)
            then show ?thesis
              unfolding start2 rej using False nokey by (simp add: AddTag_job_def)
          next
            case known: True
            then have fnd: "List.find (\<lambda>t. map_of (tags mgr) t = None) (referencedTags ?nt) = None"
              using find_unknown_None [of "tags mgr" "referencedTags ?nt"]
              by (simp add: referencedTags_new)
            have notrej: "\<not> addTagRejected Parse name queryString mgr"
              unfolding rej using pre fresh known by blast
            let ?nt' = "\<lparr>Matches = (if isMarkName name
                                         then fst (StreamIDs (QConditions q) (nextStreamID mgr))
                                         else []),
                            Uncertain = (if isMarkName name then [] else allStreams mgr),
                            Conditions = QConditions q, tagDefinition = queryString,
                            features = Features (QConditions q), color = clr,
                            converters = []\<rparr>"
            let ?tgs = "tags mgr @ [(name, ?nt')]"
            show ?thesis
            proof (cases "isMarkName name")
              case True
              have "AddTag Parse tagOrder name clr queryString mgr
                      = Some (None, mgr\<lparr>tags := ?tgs\<rparr>)"
                unfolding start2 using nokey fnd True fresh
                by (simp add: AddTag_job_def Let_def update_append)
              then show ?thesis
                using notrej Inr True by simp
            next
              case False
              have closed: "referencesClosed ?tgs"
                using referencesClosed_append [OF assms(1), of ?nt' name] known
                by (simp add: referencedTags_new)
              have cover: "fst ` set (tags (mgr\<lparr>tags := ?tgs\<rparr>)) \<subseteq> set tagOrder"
                using assms(2) by auto
              obtain mgr' where m: "startTaggingJobIfNeeded tagOrder (mgr\<lparr>tags := ?tgs\<rparr>) = Some mgr'"
                "taggingRescheduled (mgr\<lparr>tags := ?tgs\<rparr>) mgr'"
                using startTaggingJobIfNeeded_spec [of "mgr\<lparr>tags := ?tgs\<rparr>" tagOrder] closed cover
                by auto
              have mt: "tags mgr' = ?tgs"
                using taggingRescheduled_tags [OF m(2)] by simp
              have "AddTag Parse tagOrder name clr queryString mgr = Some (None, mgr')"
                unfolding start2 using nokey fnd False fresh m(1)
                by (simp add: AddTag_job_def Let_def update_append)
              then show ?thesis
                using notrej Inr False m mt by simp
            qed
          qed
        qed
      qed
    qed
  qed
qed

theorem AddTag_rejects_or_adds_witness:
  "referencesClosed (tags threeIndexes)
   \<and> \<not> addTagRejected exampleParse ''mark/favs'' ''id:3,7'' threeIndexes
   \<and> AddTag exampleParse [''mark/favs''] ''mark/favs'' ''#f00'' ''id:3,7'' threeIndexes
       = Some (None, threeIndexes\<lparr>tags :=
           [(''mark/favs'',
             \<lparr>Matches = [False, False, False, True, False, False, False, True], Uncertain = [],
              Conditions = idConditions [False, False, False, True, False, False, False, True],
              tagDefinition = ''id:3,7'',
              features = \<lparr>MainFeatures = {FeatureFilterID}, SubQueryFeatures = {},
                          MainTags = [], SubQueryTags = []\<rparr>,
              color = ''#f00'', converters = []\<rparr>)]\<rparr>)
   \<and> addTagRejected exampleParse ''tag/x'' ''@sub:service:http'' threeIndexes
   \<and> AddTag exampleParse [''tag/x''] ''tag/x'' ''#00f'' ''@sub:service:http'' threeIndexes
       = Some (Some (ErrUnknownReferencedTag ''service/http''), threeIndexes)
   \<and> \<not> addTagRejected exampleParse ''service/http'' ''data:GET'' threeIndexes
   \<and> map_option (\<lambda>r. (fst r, map (\<lambda>(n, t). (n, Matches t, Uncertain t)) (tags (snd r)),
                        taggingJobRunning (snd r), spawned (snd r),
                        map (usedIndexes (snd r)) (indexes (snd r))))
        (AddTag exampleParse [''service/http''] ''service/http'' ''#0f0'' ''data:GET'' threeIndexes)
       = Some (None, [(''service/http'', [], replicate 16 True)], True,
               [UpdateTagJob ''service/http''
                  \<lparr>Matches = [], Uncertain = replicate 16 True,
                   Conditions = \<lparr>Features = \<lparr>MainFeatures = {FeatureFilterData},
                                              SubQueryFeatures = {}, MainTags = [],
                                              SubQueryTags = []\<rparr>,
                                 StreamIDs = (\<lambda>n. ([], False))\<rparr>,
                   tagDefinition = ''data:GET'',
                   features = \<lparr>MainFeatures = {FeatureFilterData}, SubQueryFeatures = {},
                               MainTags = [], SubQueryTags = []\<rparr>,
                   color = ''#0f0'', converters = []\<rparr>
                  [] []
                  [exampleIndex ''a.idx'' 10, exampleIndex ''b.idx'' 1, exampleIndex ''c.idx'' 5]
                  [exampleIndex ''a.idx'' 10, exampleIndex ''b.idx'' 1, exampleIndex ''c.idx'' 5]],
               [Some 2, Some 2, Some 2])"
proof -
  have cover1: "insert ''mark/favs'' (fst ` set (tags threeIndexes)) \<subseteq> set [''mark/favs'']"
    and cover2: "insert ''tag/x'' (fst ` set (tags threeIndexes)) \<subseteq> set [''tag/x'']"
    and cover3: "insert ''service/http'' (fst ` set (tags threeIndexes)) \<subseteq> set [''service/http'']"
    by (simp_all add: threeIndexes_def emptyManager_def)
  have closed: "referencesClosed (tags threeIndexes)"
    by (simp add: referencesClosed_def threeIndexes_def emptyManager_def)
  have tg: "tags threeIndexes = []" "nextStreamID threeIndexes = 16"
    by (simp_all add: threeIndexes_def emptyManager_def)
  have p1: "exampleParse ''id:3,7''
            = Inr \<lparr>QConditions = idConditions [False, False, False, True, False, False, False, True],
                Grouping = None\<rparr>"
    by (simp add: exampleParse_def)
  have mark: "isMarkName ''mark/favs''" "\<not> isMarkName ''tag/x''"
    by (simp_all add: isMarkName_def HasPrefix_def)
  have ok: "\<not> addTagRejected exampleParse ''mark/favs'' ''id:3,7'' threeIndexes"
    by (simp add: addTagRejected_def p1 tg HasPrefix_def idConditions_def)
  have p2: "exampleParse ''@sub:service:http''
      = Inr \<lparr>QConditions =
                  \<lparr>Features = \<lparr>MainFeatures = {}, SubQueryFeatures = {},
                               MainTags = [], SubQueryTags = [''service/http'']\<rparr>,
                   StreamIDs = (\<lambda>n. ([], False))\<rparr>,
                Grouping = None\<rparr>"
    by (simp add: exampleParse_def)
  have rej: "addTagRejected exampleParse ''tag/x'' ''@sub:service:http'' threeIndexes"
    by (simp add: addTagRejected_def p2 tg HasPrefix_def)
  from AddTag_rejects_or_adds [OF closed cover1, of exampleParse "''#f00''" "''id:3,7''"]
  obtain res mgr' where a: "AddTag exampleParse [''mark/favs''] ''mark/favs'' ''#f00'' ''id:3,7'' threeIndexes
                              = Some (res, mgr')"
    and b: "res \<noteq> None \<longleftrightarrow> addTagRejected exampleParse ''mark/favs'' ''id:3,7'' threeIndexes"
    and c: "res = None \<longrightarrow>
          (\<exists>q. exampleParse ''id:3,7'' = Inr q
             \<and> tags mgr' = tags threeIndexes
                  @ [(''mark/favs'', \<lparr>Matches = (if isMarkName ''mark/favs''
                                         then fst (StreamIDs (QConditions q) (nextStreamID threeIndexes))
                                         else []),
                            Uncertain = (if isMarkName ''mark/favs'' then [] else allStreams threeIndexes),
                            Conditions = QConditions q, tagDefinition = ''id:3,7'',
                            features = Features (QConditions q), color = ''#f00'',
                            converters = []\<rparr>)]
             \<and> (if isMarkName ''mark/favs'' then mgr' = threeIndexes\<lparr>tags := tags mgr'\<rparr>
                 else taggingRescheduled (threeIndexes\<lparr>tags := tags mgr'\<rparr>) mgr'))"
    by blast
  have res: "res = None"
    using b ok by simp
  have added: "AddTag exampleParse [''mark/favs''] ''mark/favs'' ''#f00'' ''id:3,7'' threeIndexes
       = Some (None, threeIndexes\<lparr>tags :=
           [(''mark/favs'',
             \<lparr>Matches = [False, False, False, True, False, False, False, True], Uncertain = [],
              Conditions = idConditions [False, False, False, True, False, False, False, True],
              tagDefinition = ''id:3,7'',
              features = \<lparr>MainFeatures = {FeatureFilterID}, SubQueryFeatures = {},
                          MainTags = [], SubQueryTags = []\<rparr>,
              color = ''#f00'', converters = []\<rparr>)]\<rparr>)"
    using a c res mark by (auto simp: p1 tg idConditions_def)
  from AddTag_rejects_or_adds [OF closed cover2, of exampleParse "''#00f''" "''@sub:service:http''"]
  obtain res2 mgr2 where a2: "AddTag exampleParse [''tag/x''] ''tag/x'' ''#00f'' ''@sub:service:http'' threeIndexes
                              = Some (res2, mgr2)"
    and b2: "res2 \<noteq> None \<longleftrightarrow> addTagRejected exampleParse ''tag/x'' ''@sub:service:http'' threeIndexes"
    and c2: "res2 \<noteq> None \<longrightarrow> mgr2 = threeIndexes"
    by blast
  have "AddTag exampleParse [''tag/x''] ''tag/x'' ''#00f'' ''@sub:service:http'' threeIndexes
       = Some (Some (ErrUnknownReferencedTag ''service/http''), threeIndexes)"
    by (simp add: AddTag_def AddTag_job_def p2 tg HasPrefix_def SplitN2_def referencedTags_def Let_def)
  moreover have p3: "exampleParse ''data:GET''
      = Inr \<lparr>QConditions =
                  \<lparr>Features = \<lparr>MainFeatures = {FeatureFilterData}, SubQueryFeatures = {},
                               MainTags = [], SubQueryTags = []\<rparr>,
                   StreamIDs = (\<lambda>n. ([], False))\<rparr>,
                Grouping = None\<rparr>"
    by (simp add: exampleParse_def)
  have ok3: "\<not> addTagRejected exampleParse ''service/http'' ''data:GET'' threeIndexes"
    by (simp add: addTagRejected_def p3 tg HasPrefix_def)
  from AddTag_rejects_or_adds [OF closed cover3, of exampleParse "''#0f0''" "''data:GET''"]
  obtain res3 mgr3 where a3: "AddTag exampleParse [''service/http''] ''service/http'' ''#0f0''
                                ''data:GET'' threeIndexes = Some (res3, mgr3)"
    and b3: "res3 \<noteq> None \<longleftrightarrow> addTagRejected exampleParse ''service/http'' ''data:GET'' threeIndexes"
    by blast
  have job: "map_option (\<lambda>r. (fst r, map (\<lambda>(n, t). (n, Matches t, Uncertain t)) (tags (snd r)),
                        taggingJobRunning (snd r), spawned (snd r),
                        map (usedIndexes (snd r)) (indexes (snd r))))
        (AddTag exampleParse [''service/http''] ''service/http'' ''#0f0'' ''data:GET'' threeIndexes)
       = Some (None, [(''service/http'', [], replicate 16 True)], True,
               [UpdateTagJob ''service/http''
                  \<lparr>Matches = [], Uncertain = replicate 16 True,
                   Conditions = \<lparr>Features = \<lparr>MainFeatures = {FeatureFilterData},
                                              SubQueryFeatures = {}, MainTags = [],
                                              SubQueryTags = []\<rparr>,
                                 StreamIDs = (\<lambda>n. ([], False))\<rparr>,
                   tagDefinition = ''data:GET'',
                   features = \<lparr>MainFeatures = {FeatureFilterData}, SubQueryFeatures = {},
                               MainTags = [], SubQueryTags = []\<rparr>,
                   color = ''#0f0'', converters = []\<rparr>
                  [] []
                  [exampleIndex ''a.idx'' 10, exampleIndex ''b.idx'' 1, exampleIndex ''c.idx'' 5]
                  [exampleIndex ''a.idx'' 10, exampleIndex ''b.idx'' 1, exampleIndex ''c.idx'' 5]],
               [Some 2, Some 2, Some 2])"
    by (simp add: AddTag_def AddTag_job_def p3 HasPrefix_def SplitN2_def referencedTags_def Let_def
          startTaggingJobIfNeeded_def getIndexesCopy_def lock_def lock1_def refcount_def
          threeIndexes_def emptyManager_def exampleIndex_def IsZero_def)
  ultimately show ?thesis
    using closed ok added rej ok3 by blast
qed

subsection \<open>Marking streams\<close>

lemma showNat_digit: "n < 10 \<Longrightarrow> showNat n = [''0123456789'' ! n]"
  by (simp add: showNat.simps)

lemma markDefinition_357:
  "markDefinition [False, False, False, True, False, True, False, True] = ''id:3,5,7''"
proof -
  let ?m = "[False, False, False, True, False, True, False, True]"
  have z0: "TrailingZerosFrom ?m 0 = 3" and z4: "TrailingZerosFrom ?m 4 = 1"
    and z6: "TrailingZerosFrom ?m 6 = 1" and z8: "TrailingZerosFrom ?m 8 = - 1"
    by (simp_all add: TrailingZerosFrom_def upt_conv_Cons)
  have "writeIDs ?m 8 ''id:3,5,7'' = ''id:3,5,7''"
    by (subst writeIDs.simps) (simp add: z8)
  then have "writeIDs ?m 6 ''id:3,5'' = ''id:3,5,7''"
    by (subst writeIDs.simps) (simp add: z6 showNat_digit)
  then have "writeIDs ?m 4 ''id:3'' = ''id:3,5,7''"
    by (subst writeIDs.simps) (simp add: z4 showNat_digit)
  then have "writeIDs ?m 0 ''id:'' = ''id:3,5,7''"
    by (subst writeIDs.simps) (simp add: z0 showNat_digit)
  then show ?thesis
    by (simp add: markDefinition_def IsZero_def)
qed

lemma favsManager_fields:
  "tags favsManager = [(''mark/favs'',
        favsTag [False, False, False, True, False, False, False, True] ''id:3,7'')]"
  "nextStreamID favsManager = 16" "taggingJobRunning favsManager = False"
  by (simp_all add: favsManager_def threeIndexes_def emptyManager_def)

lemma UpdateTag_favs_add0:
  "UpdateTag exampleParse (\<lambda>c. None) [[''mark/favs'']] [''mark/favs''] []
        ''mark/favs'' (UpdateTagOperationMarkAddStream [0]) favsManager
       = Some (None, favsManager)"
  by (simp add: UpdateTag_def UpdateTag_job_def HasPrefix_def raiseMaxUsed_def favsManager_fields)

lemma UpdateTag_favs_add5:
  "UpdateTag exampleParse (\<lambda>c. None) [[''mark/favs'']] [''mark/favs''] []
      ''mark/favs'' (UpdateTagOperationMarkAddStream [5]) favsManager
     = Some (None, threeIndexes\<lparr>tags := [(''mark/favs'',
         favsTag [False, False, False, True, False, True, False, True] ''id:3,5,7'')]\<rparr>)"
proof -
  have tf: "nextStreamID threeIndexes = 16" "taggingJobRunning threeIndexes = False"
    by (simp_all add: threeIndexes_def emptyManager_def)
  have p: "exampleParse ''id:3,5,7''
      = Inr \<lparr>QConditions = idConditions [False, False, False, True, False, True, False, True],
                Grouping = None\<rparr>"
    by (simp add: exampleParse_def)
  show ?thesis
    by (simp add: UpdateTag_def UpdateTag_job_def updateMarks_def HasPrefix_def raiseMaxUsed_def
          favsManager_fields tf favsTag_def Set_bit_def Copy_def markDefinition_357 p
          inheritTagUncertainty_def inheritStep_def referencedTags_def
          startTaggingJobIfNeeded_def IsZero_def favsManager_def Let_def)
qed

text \<open>
  Claim C7 at two inputs. Adding stream 5 to \<open>mark/favs\<close> gives the matches
  \<open>{3, 5, 7}\<close>, the definition \<open>id:3,5,7\<close> and an empty \<open>Uncertain\<close>, as the claim says.
  Adding stream 0, an id below \<open>nextStreamID\<close>, returns \<open>nil\<close> and changes nothing:
  after \<open>maxUsedStreamID--\<close> the closure tests \<open>maxUsedStreamID != 0\<close>, which is false
  when the largest id of the operation is 0, and skips the update.
\<close>

theorem UpdateTag_mark_stream_zero:
  "UpdateTag exampleParse (\<lambda>c. None) [[''mark/favs'']] [''mark/favs''] []
      ''mark/favs'' (UpdateTagOperationMarkAddStream [5]) favsManager
     = Some (None, threeIndexes\<lparr>tags := [(''mark/favs'',
         favsTag [False, False, False, True, False, True, False, True] ''id:3,5,7'')]\<rparr>)
   \<and> 0 < nextStreamID favsManager
   \<and> UpdateTag exampleParse (\<lambda>c. None) [[''mark/favs'']] [''mark/favs''] []
        ''mark/favs'' (UpdateTagOperationMarkAddStream [0]) favsManager
       = Some (None, favsManager)"
  using UpdateTag_favs_add0 UpdateTag_favs_add5 favsManager_fields(2) by simp

theorem UpdateTag_mark_stream_zero_witness:
  "map_option (\<lambda>r. map (\<lambda>(n, t). (n, Matches t, tagDefinition t)) (tags (snd r)))
     (UpdateTag exampleParse (\<lambda>c. None) [[''mark/favs'']] [''mark/favs''] []
        ''mark/favs'' (UpdateTagOperationMarkAddStream [0]) favsManager)
     = Some [(''mark/favs'', [False, False, False, True, False, False, False, True], ''id:3,7'')]
   \<and> map_option (\<lambda>r. map (\<lambda>(n, t). (n, Matches t, tagDefinition t)) (tags (snd r)))
     (UpdateTag exampleParse (\<lambda>c. None) [[''mark/favs'']] [''mark/favs''] []
        ''mark/favs'' (UpdateTagOperationMarkAddStream [5]) favsManager)
     = Some [(''mark/favs'', [False, False, False, True, False, True, False, True], ''id:3,5,7'')]"
  using UpdateTag_mark_stream_zero by (simp add: favsManager_fields favsTag_def)

subsection \<open>Uncertainty propagation\<close>

lemma IsSet_Or_mask: "IsSet (Or_mask a b) i \<longleftrightarrow> IsSet a i \<or> IsSet b i"
proof (induction a b arbitrary: i rule: Or_mask.induct)
  case (1 ys)
  then show ?case by (simp add: IsSet_def)
next
  case (2 x xs)
  then show ?case by (simp add: IsSet_def)
next
  case (3 x xs y ys)
  show ?case
  proof (cases i)
    case 0
    then show ?thesis by (simp add: IsSet_def)
  next
    case (Suc j)
    then show ?thesis using 3 [of j] by (simp add: IsSet_def)
  qed
qed

lemma bits_Or_mask: "bits (Or_mask a b) = bits a \<union> bits b"
  by (auto simp: bits_def IsSet_Or_mask)

lemma IsZero_bits: "IsZero m \<longleftrightarrow> bits m = {}"
  by (auto simp: IsZero_def bits_def IsSet_def in_set_conv_nth)

lemma bits_Copy: "bits (Copy m) = bits m"
  by (simp add: Copy_def)

lemma bits_Nil: "bits [] = {}"
  by (simp add: bits_def IsSet_def)

lemma anyUncertain_Some:
  "set refs \<subseteq> fst ` set tgs
     \<Longrightarrow> anyUncertain tgs refs = Some (\<exists>r\<in>set refs. uncertainOf tgs r \<noteq> {})"
proof (induction refs)
  case Nil
  then show ?case by simp
next
  case (Cons r refs)
  then obtain rt where rt: "map_of tgs r = Some rt"
    using map_of_key [of r tgs] by auto
  show ?case
    using Cons rt by (simp add: uncertainOf_def IsZero_bits)
qed

lemma orMainTags_Some:
  "set refs \<subseteq> fst ` set tgs
     \<Longrightarrow> \<exists>u'. orMainTags tgs refs u = Some u'
              \<and> bits u' = bits u \<union> (\<Union>r\<in>set refs. uncertainOf tgs r)"
proof (induction refs arbitrary: u)
  case Nil
  then show ?case by simp
next
  case (Cons r refs)
  then obtain rt where rt: "map_of tgs r = Some rt"
    using map_of_key [of r tgs] by auto
  have sub: "set refs \<subseteq> fst ` set tgs"
    using Cons.prems by simp
  from Cons.IH [OF sub, of "Or_mask u (Uncertain rt)"]
  obtain u' where u': "orMainTags tgs refs (Or_mask u (Uncertain rt)) = Some u'"
    "bits u' = bits (Or_mask u (Uncertain rt)) \<union> (\<Union>r\<in>set refs. uncertainOf tgs r)"
    by blast
  have "uncertainOf tgs r = bits (Uncertain rt)"
    using rt by (simp add: uncertainOf_def)
  then show ?case
    using rt u' by (auto simp: bits_Or_mask)
qed

lemma uncertainOf_cong:
  "map_of tgs r = map_of tgs' r \<Longrightarrow> uncertainOf tgs r = uncertainOf tgs' r"
  by (simp add: uncertainOf_def)

lemma inheritedTag_cong:
  assumes "\<forall>r\<in>set (referencedTags t). map_of tgs r = map_of tgs' r"
  shows "inheritedTag allS tgs t t' = inheritedTag allS tgs' t t'"
proof -
  have "uncertainOf tgs r = uncertainOf tgs' r" if "r \<in> set (referencedTags t)" for r
    using assms that by (intro uncertainOf_cong) blast
  then have eq: "\<And>r. r \<in> set (SubQueryTags (features t)) \<Longrightarrow> uncertainOf tgs r = uncertainOf tgs' r"
    "\<And>r. r \<in> set (MainTags (features t)) \<Longrightarrow> uncertainOf tgs r = uncertainOf tgs' r"
    by (simp_all add: referencedTags_def)
  have "(\<exists>r\<in>set (SubQueryTags (features t)). uncertainOf tgs r \<noteq> {})
               = (\<exists>r\<in>set (SubQueryTags (features t)). uncertainOf tgs' r \<noteq> {})"
    using eq(1) by (intro bex_cong) simp_all
  moreover have "(\<Union>r\<in>set (MainTags (features t)). uncertainOf tgs r)
               = (\<Union>r\<in>set (MainTags (features t)). uncertainOf tgs' r)"
    using eq(2) by (intro SUP_cong) simp_all
  ultimately have "(\<exists>r\<in>set (SubQueryTags (features t)). uncertainOf tgs r \<noteq> {})
               = (\<exists>r\<in>set (SubQueryTags (features t)). uncertainOf tgs' r \<noteq> {})"
    and "(\<Union>r\<in>set (MainTags (features t)). uncertainOf tgs r)
               = (\<Union>r\<in>set (MainTags (features t)). uncertainOf tgs' r)"
    by blast+
  then show ?thesis
    unfolding inheritedTag_def by simp
qed

lemma map_of_keys_eq:
  "map fst al = map fst bl \<Longrightarrow> (map_of al k = None) = (map_of bl k = None)"
  by (metis map_of_eq_None_iff set_map)

lemma inheritedTag_no_refs:
  "referencedTags t = [] \<Longrightarrow> inheritedTag allS tgs t t"
  by (simp add: inheritedTag_def)

lemma inheritStep_inv:
  assumes wf: "tagsWellFormed rank tgs0" and inv: "inheritInv allS tgs0 st"
  shows "\<exists>st'. inheritStep allS tn st = Some st' \<and> inheritInv allS tgs0 st'
           \<and> set (fst st) \<subseteq> set (fst st')
           \<and> ((\<exists>t. map_of tgs0 tn = Some t \<and> set (referencedTags t) \<subseteq> set (fst st))
                \<longrightarrow> tn \<in> set (fst st'))"
proof -
  obtain resolved cur where st: "st = (resolved, cur)"
    by (cases st)
  have keys: "map fst cur = map fst tgs0"
    and dist: "distinct resolved" and sub: "set resolved \<subseteq> fst ` set tgs0"
    and tagsI: "\<And>tn t. map_of tgs0 tn = Some t \<Longrightarrow>
            \<exists>t'. map_of cur tn = Some t'
               \<and> (if tn \<in> set resolved
                  then set (referencedTags t) \<subseteq> set resolved \<and> inheritedTag allS cur t t'
                  else t' = t)"
    using inv unfolding inheritInv_def st fst_conv snd_conv by blast+
  have keyset: "fst ` set cur = fst ` set tgs0"
    using keys by (metis set_map)
  show ?thesis
  proof (cases "map_of cur tn")
    case None
    then have "map_of tgs0 tn = None"
      using map_of_keys_eq [OF keys] by simp
    then show ?thesis
      using None inv by (simp add: inheritStep_def st)
  next
    case (Some ti)
    then have "map_of tgs0 tn \<noteq> None"
      using map_of_keys_eq [OF keys, of tn] by simp
    then obtain t where t: "map_of tgs0 tn = Some t"
      by blast
    have tnkey: "tn \<in> fst ` set tgs0"
      using t by (metis map_of_None_iff option.distinct(1))
    have refs_wf: "\<forall>r\<in>set (referencedTags t). r \<in> fst ` set tgs0"
      using wf t unfolding tagsWellFormed_def by (auto dest!: map_of_SomeD)
    show ?thesis
    proof (cases "tn \<in> set resolved")
      case True
      then show ?thesis
        using Some inv by (simp add: inheritStep_def st)
    next
      case unresolved: False
      have ti: "ti = t"
        using tagsI [OF t] Some unresolved by simp
      show ?thesis
      proof (cases "\<exists>rtn\<in>set (referencedTags t). rtn \<notin> set resolved")
        case True
        then have "inheritStep allS tn st = Some st"
          using Some unresolved ti by (simp add: inheritStep_def st)
        then show ?thesis
          using inv True t by (auto simp: st)
      next
        case False
        then have refs_res: "set (referencedTags t) \<subseteq> set resolved"
          by blast
        have tn_notref: "tn \<notin> set (referencedTags t)"
          using refs_res unresolved by blast
        have refs_cur: "set (SubQueryTags (features t)) \<subseteq> fst ` set cur"
          "set (MainTags (features t)) \<subseteq> fst ` set cur"
          using refs_wf keyset by (auto simp: referencedTags_def)
        text \<open>The new entry of \<open>tn\<close>: every candidate satisfies the rule of inheritance.\<close>
        have "\<exists>t'. inheritStep allS tn st = Some (tn # resolved, AList.update tn t' cur)
                \<and> inheritedTag allS (AList.update tn t' cur) t t'"
        proof (cases "referencedTags t = []")
          case True
          then have "length (MainTags (features t)) = 0 \<and> length (SubQueryTags (features t)) = 0"
            by (simp add: referencedTags_def)
          then have "inheritStep allS tn st = Some (tn # resolved, cur)"
            using Some unresolved ti False by (simp add: inheritStep_def st Let_def)
          moreover have "AList.update tn t cur = cur"
            using Some ti by (simp add: update_triv)
          ultimately show ?thesis
            using inheritedTag_no_refs [OF True] by (intro exI [of _ t]) simp
        next
          case hasrefs: False
          then have nz: "\<not> (length (MainTags (features t)) = 0 \<and> length (SubQueryTags (features t)) = 0)"
            by (simp add: referencedTags_def)
          have same: "uncertainOf (AList.update tn t' cur) r = uncertainOf cur r"
            if "r \<in> set (referencedTags t)" for r t'
            using that tn_notref by (intro uncertainOf_cong) (auto simp: update_conv')
          show ?thesis
          proof (cases "\<exists>r\<in>set (SubQueryTags (features t)). uncertainOf cur r \<noteq> {}")
            case True
            then have any: "anyUncertain cur (SubQueryTags (features t)) = Some True"
              using anyUncertain_Some [OF refs_cur(1)] by simp
            have step: "inheritStep allS tn st
                    = Some (tn # resolved, AList.update tn (t\<lparr>Uncertain := allS\<rparr>) cur)"
              using Some unresolved ti False nz any by (auto simp: inheritStep_def st Let_def)
            have "\<exists>r\<in>set (SubQueryTags (features t)).
                    uncertainOf (AList.update tn (t\<lparr>Uncertain := allS\<rparr>) cur) r \<noteq> {}"
              using True same by (auto simp: referencedTags_def)
            then have "inheritedTag allS (AList.update tn (t\<lparr>Uncertain := allS\<rparr>) cur) t
                         (t\<lparr>Uncertain := allS\<rparr>)"
              using hasrefs by (simp add: inheritedTag_def)
            then show ?thesis
              using step by blast
          next
            case none: False
            then have any: "anyUncertain cur (SubQueryTags (features t)) = Some False"
              using anyUncertain_Some [OF refs_cur(1)] by simp
            obtain u where u: "orMainTags cur (MainTags (features t)) (Copy (Uncertain t)) = Some u"
              "bits u = bits (Copy (Uncertain t))
                          \<union> (\<Union>r\<in>set (MainTags (features t)). uncertainOf cur r)"
              using orMainTags_Some [OF refs_cur(2)] by blast
            have step: "inheritStep allS tn st
                    = Some (tn # resolved, AList.update tn (t\<lparr>Uncertain := u\<rparr>) cur)"
              using Some unresolved ti False nz any u(1) by (auto simp: inheritStep_def st Let_def)
            have a: "\<not> (\<exists>r\<in>set (SubQueryTags (features t)).
                    uncertainOf (AList.update tn (t\<lparr>Uncertain := u\<rparr>) cur) r \<noteq> {})"
              using none same by (auto simp: referencedTags_def)
            have b: "(\<Union>r\<in>set (MainTags (features t)).
                        uncertainOf (AList.update tn (t\<lparr>Uncertain := u\<rparr>) cur) r)
                   = (\<Union>r\<in>set (MainTags (features t)). uncertainOf cur r)"
              using same by (intro SUP_cong) (simp_all add: referencedTags_def)
            have "inheritedTag allS (AList.update tn (t\<lparr>Uncertain := u\<rparr>) cur) t
                         (t\<lparr>Uncertain := u\<rparr>)"
              using hasrefs a b u(2) by (simp add: inheritedTag_def bits_Copy)
            then show ?thesis
              using step by blast
          qed
        qed
        then obtain t' where step: "inheritStep allS tn st = Some (tn # resolved, AList.update tn t' cur)"
          and inh: "inheritedTag allS (AList.update tn t' cur) t t'"
          by blast
        let ?cur' = "AList.update tn t' cur"
        have keys': "map fst ?cur' = map fst tgs0"
          using keys tnkey keyset by (simp add: update_keys)
        have lookup: "map_of ?cur' k = (if k = tn then Some t' else map_of cur k)" for k
          by (simp add: update_conv')
        have entries: "\<exists>s'. map_of ?cur' k = Some s'
               \<and> (if k \<in> set (tn # resolved)
                  then set (referencedTags s) \<subseteq> set (tn # resolved) \<and> inheritedTag allS ?cur' s s'
                  else s' = s)"
          if s: "map_of tgs0 k = Some s" for k s
        proof (cases "k = tn")
          case True
          then have "s = t"
            using s t by simp
          then show ?thesis
            using True inh refs_res by (auto simp: lookup)
        next
          case False
          from tagsI [OF s] obtain s' where s': "map_of cur k = Some s'"
            "if k \<in> set resolved
             then set (referencedTags s) \<subseteq> set resolved \<and> inheritedTag allS cur s s'
             else s' = s"
            by blast
          show ?thesis
          proof (cases "k \<in> set resolved")
            case True
            then have rs: "set (referencedTags s) \<subseteq> set resolved" and inhs: "inheritedTag allS cur s s'"
              using s'(2) by simp_all
            have "\<forall>r\<in>set (referencedTags s). map_of ?cur' r = map_of cur r"
              using rs unresolved by (auto simp: lookup)
            then have "inheritedTag allS ?cur' s s' = inheritedTag allS cur s s'"
              by (rule inheritedTag_cong)
            then show ?thesis
              using True False s'(1) rs inhs by (auto simp: lookup)
          next
            case notres: False
            then show ?thesis
              using False s' by (simp add: lookup)
          qed
        qed
        have "inheritInv allS tgs0 (tn # resolved, ?cur')"
          unfolding inheritInv_def fst_conv snd_conv
        proof (intro conjI allI impI)
          show "map fst ?cur' = map fst tgs0"
            by (rule keys')
          show "distinct (tn # resolved)"
            using dist unresolved by simp
          show "set (tn # resolved) \<subseteq> fst ` set tgs0"
            using sub tnkey by simp
          fix k s
          assume "map_of tgs0 k = Some s"
          then show "\<exists>s'. map_of ?cur' k = Some s'
               \<and> (if k \<in> set (tn # resolved)
                  then set (referencedTags s) \<subseteq> set (tn # resolved) \<and> inheritedTag allS ?cur' s s'
                  else s' = s)"
            by (rule entries)
        qed
        then show ?thesis
          using step by (auto simp: st)
      qed
    qed
  qed
qed

lemma inheritPass_inv:
  assumes wf: "tagsWellFormed rank tgs0" and inv: "inheritInv allS tgs0 st"
  shows "\<exists>st'. inheritPass allS order st = Some st' \<and> inheritInv allS tgs0 st'
           \<and> set (fst st) \<subseteq> set (fst st')
           \<and> (\<forall>tn\<in>set order.
                 (\<exists>t. map_of tgs0 tn = Some t \<and> set (referencedTags t) \<subseteq> set (fst st))
                 \<longrightarrow> tn \<in> set (fst st'))"
  using inv
proof (induction order arbitrary: st)
  case Nil
  then show ?case by simp
next
  case (Cons tn order)
  from inheritStep_inv [OF wf Cons.prems, of tn]
  obtain st1 where s1: "inheritStep allS tn st = Some st1" "inheritInv allS tgs0 st1"
    "set (fst st) \<subseteq> set (fst st1)"
    "(\<exists>t. map_of tgs0 tn = Some t \<and> set (referencedTags t) \<subseteq> set (fst st))
       \<longrightarrow> tn \<in> set (fst st1)"
    by blast
  from Cons.IH [OF s1(2)]
  obtain st' where s': "inheritPass allS order st1 = Some st'" "inheritInv allS tgs0 st'"
    "set (fst st1) \<subseteq> set (fst st')"
    "\<forall>k\<in>set order.
       (\<exists>t. map_of tgs0 k = Some t \<and> set (referencedTags t) \<subseteq> set (fst st1))
       \<longrightarrow> k \<in> set (fst st')"
    by blast
  have "k \<in> set (fst st')"
    if "k \<in> set (tn # order)" "map_of tgs0 k = Some t" "set (referencedTags t) \<subseteq> set (fst st)"
    for k t
  proof (cases "k = tn")
    case True
    then show ?thesis using s1(4) s'(3) that by blast
  next
    case False
    then have "k \<in> set order" using that(1) by simp
    moreover have "set (referencedTags t) \<subseteq> set (fst st1)"
      using that(3) s1(3) by blast
    ultimately show ?thesis using s'(4) that(2) by blast
  qed
  then show ?case
    using s1(1,3) s'(1,2,3) by (intro exI [of _ st']) auto
qed

lemma inheritInv_length:
  assumes "tagsWellFormed rank tgs0" and "inheritInv allS tgs0 st"
  shows "length (fst st) \<le> length tgs0"
    and "length (snd st) = length tgs0"
    and "length (fst st) = length tgs0 \<longleftrightarrow> set (fst st) = fst ` set tgs0"
proof -
  have d: "distinct (map fst tgs0)"
    using assms(1) by (simp add: tagsWellFormed_def)
  have r: "distinct (fst st)" "set (fst st) \<subseteq> fst ` set tgs0" "map fst (snd st) = map fst tgs0"
    using assms(2) by (simp_all add: inheritInv_def)
  have card_keys: "card (fst ` set tgs0) = length tgs0"
    using d by (metis distinct_card length_map set_map)
  have card_res: "card (set (fst st)) = length (fst st)"
    using r(1) by (rule distinct_card)
  show "length (fst st) \<le> length tgs0"
    using card_mono [OF _ r(2)] card_keys card_res by simp
  show "length (snd st) = length tgs0"
    using r(3) by (metis length_map)
  show "length (fst st) = length tgs0 \<longleftrightarrow> set (fst st) = fst ` set tgs0"
    using card_subset_eq [OF _ r(2)] card_keys card_res by auto
qed

lemma inheritPass_progress:
  assumes wf: "tagsWellFormed rank tgs0" and inv: "inheritInv allS tgs0 st"
    and cover: "fst ` set tgs0 \<subseteq> set order"
    and unfinished: "length (fst st) \<noteq> length tgs0"
  shows "\<exists>st'. inheritPass allS order st = Some st' \<and> inheritInv allS tgs0 st'
           \<and> length (fst st) < length (fst st')"
proof -
  from inheritPass_inv [OF wf inv, of order]
  obtain st' where s': "inheritPass allS order st = Some st'" "inheritInv allS tgs0 st'"
    "set (fst st) \<subseteq> set (fst st')"
    "\<forall>tn\<in>set order.
       (\<exists>t. map_of tgs0 tn = Some t \<and> set (referencedTags t) \<subseteq> set (fst st))
       \<longrightarrow> tn \<in> set (fst st')"
    by blast
  have sub: "set (fst st) \<subseteq> fst ` set tgs0"
    using inv by (simp add: inheritInv_def)
  have "set (fst st) \<noteq> fst ` set tgs0"
    using inheritInv_length(3) [OF wf inv] unfinished by simp
  then have ne: "fst ` set tgs0 - set (fst st) \<noteq> {}"
    using sub by blast
  define U where "U = fst ` set tgs0 - set (fst st)"
  have "finite U" "U \<noteq> {}"
    using ne by (simp_all add: U_def)
  then obtain tn where tn: "tn \<in> U" "\<forall>k\<in>U. rank tn \<le> rank k"
    using ex_min_if_finite [of "rank ` U"]
    by (metis (no_types, lifting) arg_min_least arg_min_if_finite(1))
  then obtain t where t: "(tn, t) \<in> set tgs0"
    by (auto simp: U_def)
  have d: "distinct (map fst tgs0)"
    using wf by (simp add: tagsWellFormed_def)
  have mt: "map_of tgs0 tn = Some t"
    using t d by simp
  have "r \<in> set (fst st)" if "r \<in> set (referencedTags t)" for r
  proof (rule ccontr)
    assume "r \<notin> set (fst st)"
    moreover have "r \<in> fst ` set tgs0" "rank r < rank tn"
      using wf t that unfolding tagsWellFormed_def by blast+
    ultimately have "r \<in> U"
      by (simp add: U_def)
    then show False
      using tn(2) \<open>rank r < rank tn\<close> by force
  qed
  then have "set (referencedTags t) \<subseteq> set (fst st)"
    by blast
  moreover have "tn \<in> set order"
    using cover tn(1) by (auto simp: U_def)
  ultimately have "tn \<in> set (fst st')"
    using s'(4) mt by blast
  moreover have "tn \<notin> set (fst st)"
    using tn(1) by (simp add: U_def)
  ultimately have "set (fst st) \<subset> set (fst st')"
    using s'(3) by blast
  then have "card (set (fst st)) < card (set (fst st'))"
    by (intro psubset_card_mono) simp_all
  moreover have "distinct (fst st)" "distinct (fst st')"
    using inv s'(2) by (simp_all add: inheritInv_def)
  ultimately have "length (fst st) < length (fst st')"
    by (simp add: distinct_card)
  then show ?thesis
    using s'(1,2) by blast
qed

lemma inheritLoop_returns:
  assumes wf: "tagsWellFormed rank tgs0"
    and cover: "\<forall>order\<in>set orders. fst ` set tgs0 \<subseteq> set order"
    and inv: "inheritInv allS tgs0 (resolved, cur)"
    and fuel: "length tgs0 - length resolved \<le> length orders"
  shows "\<exists>resolved' tgs'. inheritLoop allS orders resolved cur = Some tgs'
           \<and> inheritInv allS tgs0 (resolved', tgs') \<and> set resolved' = fst ` set tgs0"
  using cover inv fuel
proof (induction orders arbitrary: resolved cur)
  case Nil
  have "length resolved \<le> length tgs0"
    using inheritInv_length(1) [OF wf Nil.prems(2)] by simp
  then have eq: "length resolved = length tgs0"
    using Nil.prems(3) by simp
  then have "set resolved = fst ` set tgs0"
    using inheritInv_length(3) [OF wf Nil.prems(2)] by simp
  moreover have "length cur = length tgs0"
    using inheritInv_length(2) [OF wf Nil.prems(2)] by simp
  ultimately show ?case
    using eq Nil.prems(2) by auto
next
  case (Cons order orders)
  have lc: "length cur = length tgs0"
    using inheritInv_length(2) [OF wf Cons.prems(2)] by simp
  show ?case
  proof (cases "length resolved = length tgs0")
    case True
    then have "set resolved = fst ` set tgs0"
      using inheritInv_length(3) [OF wf Cons.prems(2)] by simp
    then show ?thesis
      using True lc Cons.prems(2) by auto
  next
    case False
    have c: "fst ` set tgs0 \<subseteq> set order"
      using Cons.prems(1) by simp
    from inheritPass_progress [OF wf Cons.prems(2) c] False
    obtain st' where s': "inheritPass allS order (resolved, cur) = Some st'"
      "inheritInv allS tgs0 st'" "length resolved < length (fst st')"
      by auto
    have "\<exists>resolved' tgs'. inheritLoop allS orders (fst st') (snd st') = Some tgs'
           \<and> inheritInv allS tgs0 (resolved', tgs') \<and> set resolved' = fst ` set tgs0"
    proof (rule Cons.IH)
      show "\<forall>order\<in>set orders. fst ` set tgs0 \<subseteq> set order"
        using Cons.prems(1) by simp
      show "inheritInv allS tgs0 (fst st', snd st')"
        using s'(2) by simp
      show "length tgs0 - length (fst st') \<le> length orders"
        using Cons.prems(3) s'(3) by simp
    qed
    then show ?thesis
      using False lc s'(1) by simp
  qed
qed

lemma inheritInv_initial:
  "tagsWellFormed rank tgs0 \<Longrightarrow> inheritInv allS tgs0 ([], tgs0)"
  by (simp add: inheritInv_def)

lemma inheritLoop_spec:
  assumes wf: "tagsWellFormed rank tgs0"
    and cover: "\<forall>order\<in>set orders. fst ` set tgs0 \<subseteq> set order"
    and fuel: "length tgs0 \<le> length orders"
  shows "\<exists>tgs'. inheritLoop allS orders [] tgs0 = Some tgs'
           \<and> map fst tgs' = map fst tgs0
           \<and> (\<forall>tn t. map_of tgs0 tn = Some t
                 \<longrightarrow> (\<exists>t'. map_of tgs' tn = Some t' \<and> inheritedTag allS tgs' t t'))"
proof -
  from inheritLoop_returns [OF wf cover inheritInv_initial [OF wf], of allS] fuel
  obtain resolved' tgs' where r: "inheritLoop allS orders [] tgs0 = Some tgs'"
    "inheritInv allS tgs0 (resolved', tgs')" "set resolved' = fst ` set tgs0"
    by auto
  have "\<exists>t'. map_of tgs' tn = Some t' \<and> inheritedTag allS tgs' t t'"
    if "map_of tgs0 tn = Some t" for tn t
  proof -
    have "tn \<in> set resolved'"
      using that r(3) by (metis map_of_None_iff option.distinct(1))
    then show ?thesis
      using r(2) that unfolding inheritInv_def fst_conv snd_conv by meson
  qed
  moreover have "map fst tgs' = map fst tgs0"
    using r(2) by (simp add: inheritInv_def)
  ultimately show ?thesis
    using r(1) by blast
qed

lemma invalidateTag_invalidated:
  "invalidatedTag allS updatedStreams addedStreams t (invalidateTag allS updatedStreams addedStreams t)"
proof -
  have "MainFeatures (features t) - {FeatureFilterID} = {}
          \<longleftrightarrow> MainFeatures (features t) \<subseteq> {FeatureFilterID}"
    by blast
  then show ?thesis
    by (simp add: invalidatedTag_def invalidateTag_def Let_def bits_Or_mask bits_Copy)
qed

lemma invalidateTag_features:
  "features (invalidateTag allS updatedStreams addedStreams t) = features t"
  by (simp add: invalidateTag_def Let_def)

lemma map_of_map_values:
  "map_of (map (\<lambda>(k, v). (k, f v)) al) k = map_option f (map_of al k)"
  by (induction al) auto

lemma tagsWellFormed_map:
  assumes "tagsWellFormed rank tgs" and "\<And>t. features (f t) = features t"
  shows "tagsWellFormed rank (map (\<lambda>(k, v). (k, f v)) tgs)"
proof -
  have k: "map fst (map (\<lambda>(k, v). (k, f v)) tgs) = map fst tgs"
    by (induction tgs) auto
  then have ks: "fst ` set (map (\<lambda>(k, v). (k, f v)) tgs) = fst ` set tgs"
    by (metis set_map)
  have "referencedTags (f t) = referencedTags t" for t
    using assms(2) by (simp add: referencedTags_def)
  then show ?thesis
    using assms(1) unfolding tagsWellFormed_def k ks by auto
qed

text \<open>
  Claim C1. On a well-formed tag map (distinct names, every referenced tag present, no
  reference cycle), with each pass of the loop of \<open>inheritTagUncertainty\<close> visiting every
  key and as many passes granted as there are tags, \<open>invalidateTags\<close> returns; it changes
  nothing of the manager but the \<open>Uncertain\<close> masks of the tags; and for every tag there
  is an intermediate tag \<open>t1\<close>, invalidated from it by the spec's rule, from which the
  tag of the result is inherited by the spec's rule, read on the resulting tag map.
  The rule of invalidation has four cases: a subquery feature gives \<open>allStreams\<close>; no
  main feature beside the id filter leaves the tag as it is; a data or time filter
  joins the added and the updated streams; any other main feature joins the added
  streams alone.
\<close>

theorem invalidateTags_then_inherit:
  assumes "tagsWellFormed rank (tags mgr)"
    and "\<forall>order\<in>set orders. fst ` set (tags mgr) \<subseteq> set order"
    and "length (tags mgr) \<le> length orders"
  shows "\<exists>mgr'. invalidateTags orders updatedStreams addedStreams mgr = Some mgr'
     \<and> mgr' = mgr\<lparr>tags := tags mgr'\<rparr>
     \<and> map fst (tags mgr') = map fst (tags mgr)
     \<and> (\<forall>tn t. map_of (tags mgr) tn = Some t \<longrightarrow>
          (\<exists>t1 t'. map_of (tags mgr') tn = Some t'
             \<and> invalidatedTag (allStreams mgr) updatedStreams addedStreams t t1
             \<and> inheritedTag (allStreams mgr) (tags mgr') t1 t'))"
proof -
  let ?f = "invalidateTag (allStreams mgr) updatedStreams addedStreams"
  let ?tgs1 = "map (\<lambda>(tn, ti). (tn, ?f ti)) (tags mgr)"
  have k: "map fst ?tgs1 = map fst (tags mgr)"
    by (induction "tags mgr") auto
  then have ks: "fst ` set ?tgs1 = fst ` set (tags mgr)"
    by (metis set_map)
  have wf1: "tagsWellFormed rank ?tgs1"
    using assms(1) by (rule tagsWellFormed_map) (rule invalidateTag_features)
  have cover1: "\<forall>order\<in>set orders. fst ` set ?tgs1 \<subseteq> set order"
    using assms(2) unfolding ks .
  have fuel1: "length ?tgs1 \<le> length orders"
    using assms(3) by simp
  from inheritLoop_spec [OF wf1 cover1 fuel1, of "allStreams mgr"]
  obtain tgs' where r: "inheritLoop (allStreams mgr) orders [] ?tgs1 = Some tgs'"
    "map fst tgs' = map fst ?tgs1"
    "\<forall>tn t. map_of ?tgs1 tn = Some t
       \<longrightarrow> (\<exists>t'. map_of tgs' tn = Some t' \<and> inheritedTag (allStreams mgr) tgs' t t')"
    by blast
  have run: "invalidateTags orders updatedStreams addedStreams mgr = Some (mgr\<lparr>tags := tgs'\<rparr>)"
    using r(1) by (simp add: invalidateTags_def inheritTagUncertainty_def)
  have "\<exists>t1 t'. map_of tgs' tn = Some t'
             \<and> invalidatedTag (allStreams mgr) updatedStreams addedStreams t t1
             \<and> inheritedTag (allStreams mgr) tgs' t1 t'"
    if "map_of (tags mgr) tn = Some t" for tn t
  proof -
    have "map_of ?tgs1 tn = Some (?f t)"
      using that by (simp add: map_of_map_values)
    then obtain t' where "map_of tgs' tn = Some t'" "inheritedTag (allStreams mgr) tgs' (?f t) t'"
      using r(3) by blast
    then show ?thesis
      using invalidateTag_invalidated [of "allStreams mgr" updatedStreams addedStreams t]
      by blast
  qed
  then show ?thesis
    using run r(2) k by (intro exI [of _ "mgr\<lparr>tags := tgs'\<rparr>"]) simp
qed

theorem invalidateTags_then_inherit_witness:
  "tagsWellFormed (\<lambda>n. if n = ''tag/slow'' then 1 else 0) (tags scenarioTags)
   \<and> list_all (\<lambda>order. fst ` set (tags scenarioTags) \<subseteq> set order)
        [[''tag/slow'', ''service/http''], [''tag/slow'', ''service/http'']]
   \<and> length (tags scenarioTags)
       \<le> length [[''tag/slow'', ''service/http''], [''tag/slow'', ''service/http'']]
   \<and> invalidateTags [[''tag/slow'', ''service/http''], [''tag/slow'', ''service/http'']]
         [] [True] scenarioTags \<noteq> None
   \<and> map_option (\<lambda>m. map (\<lambda>(n, t). (n, Uncertain t)) (tags m))
        (invalidateTags [[''tag/slow'', ''service/http''], [''tag/slow'', ''service/http'']]
           [] [True] scenarioTags)
       = Some [(''tag/slow'', [True]), (''service/http'', [True])]
   \<and> tagsWellFormed (\<lambda>n. if n = ''tag/refs'' then 1 else 0) (tags filterKinds)
   \<and> list_all (\<lambda>order. fst ` set (tags filterKinds) \<subseteq> set order)
        [[''service/http'', ''tag/ids'', ''tag/port'', ''tag/refs''],
         [''tag/refs'', ''tag/port'', ''tag/ids'', ''service/http'']]
   \<and> invalidateTags [[''service/http'', ''tag/ids'', ''tag/port'', ''tag/refs''],
                       [''tag/refs'', ''tag/port'', ''tag/ids'', ''service/http'']]
         [True] [False, True] filterKinds \<noteq> None
   \<and> map_option (\<lambda>m. map (\<lambda>(n, t). (n, Uncertain t)) (tags m))
        (invalidateTags [[''service/http'', ''tag/ids'', ''tag/port'', ''tag/refs''],
                         [''tag/refs'', ''tag/port'', ''tag/ids'', ''service/http'']]
           [True] [False, True] filterKinds)
       = Some [(''tag/refs'', [False, True]), (''tag/port'', [False, True]),
               (''tag/ids'', []), (''service/http'', [True, True])]"
proof -
  let ?orders = "[[''tag/slow'', ''service/http''], [''tag/slow'', ''service/http'']]"
  have wf: "tagsWellFormed (\<lambda>n. if n = ''tag/slow'' then 1 else 0) (tags scenarioTags)"
    by (simp add: tagsWellFormed_def scenarioTags_def emptyManager_def referencedTags_def)
  have cover: "\<forall>order\<in>set ?orders. fst ` set (tags scenarioTags) \<subseteq> set order"
    by (simp add: scenarioTags_def emptyManager_def)
  have fuel: "length (tags scenarioTags) \<le> length ?orders"
    by (simp add: scenarioTags_def emptyManager_def)
  have returns: "invalidateTags ?orders [] [True] scenarioTags \<noteq> None"
    using invalidateTags_then_inherit [OF wf cover fuel, of "[]" "[True]"] by auto
  have val: "map_option (\<lambda>m. map (\<lambda>(n, t). (n, Uncertain t)) (tags m))
        (invalidateTags ?orders [] [True] scenarioTags)
       = Some [(''tag/slow'', [True]), (''service/http'', [True])]"
    by (simp add: invalidateTags_def inheritTagUncertainty_def invalidateTag_def inheritStep_def
          referencedTags_def scenarioTags_def emptyManager_def Let_def Copy_def IsZero_def)
  let ?orders2 = "[[''service/http'', ''tag/ids'', ''tag/port'', ''tag/refs''],
                   [''tag/refs'', ''tag/port'', ''tag/ids'', ''service/http'']]"
  have wf2: "tagsWellFormed (\<lambda>n. if n = ''tag/refs'' then 1 else 0) (tags filterKinds)"
    by (simp add: tagsWellFormed_def filterKinds_def plainTag_def emptyManager_def referencedTags_def)
  have cover2: "\<forall>order\<in>set ?orders2. fst ` set (tags filterKinds) \<subseteq> set order"
    by (simp add: filterKinds_def emptyManager_def)
  have val2: "map_option (\<lambda>m. map (\<lambda>(n, t). (n, Uncertain t)) (tags m))
        (invalidateTags ?orders2 [True] [False, True] filterKinds)
       = Some [(''tag/refs'', [False, True]), (''tag/port'', [False, True]),
               (''tag/ids'', []), (''service/http'', [True, True])]"
    by (simp add: invalidateTags_def inheritTagUncertainty_def invalidateTag_def inheritStep_def
          referencedTags_def filterKinds_def plainTag_def emptyManager_def Let_def Copy_def IsZero_def)
  then have returns2: "invalidateTags ?orders2 [True] [False, True] filterKinds \<noteq> None"
    by auto
  show ?thesis
    using wf cover fuel returns val wf2 cover2 returns2 val2 by (simp add: list_all_iff)
qed

subsection \<open>Marks stay settled\<close>

lemma tagsEvolve_refl: "tagsEvolve tgs tgs"
  by (simp add: tagsEvolve_def)

lemma tagsEvolve_trans:
  assumes "tagsEvolve a b" and "tagsEvolve b c"
  shows "tagsEvolve a c"
proof -
  have "\<exists>t. map_of a n = Some t \<and> features t' = features t
               \<and> (Uncertain t' = Uncertain t \<or> \<not> pureID (features t))"
    if "map_of c n = Some t'" for n t'
  proof -
    from assms(2) that obtain tb where tb: "map_of b n = Some tb" "features t' = features tb"
      "Uncertain t' = Uncertain tb \<or> \<not> pureID (features tb)"
      unfolding tagsEvolve_def by blast
    from assms(1) tb(1) obtain ta where ta: "map_of a n = Some ta" "features tb = features ta"
      "Uncertain tb = Uncertain ta \<or> \<not> pureID (features ta)"
      unfolding tagsEvolve_def by blast
    show ?thesis
      using tb ta by auto
  qed
  moreover have "map fst c = map fst a"
    using assms by (simp add: tagsEvolve_def)
  ultimately show ?thesis
    unfolding tagsEvolve_def by blast
qed

lemma marksSettled_evolve:
  assumes "marksSettled tgs" and "tagsEvolve tgs tgs'"
  shows "marksSettled tgs'"
proof -
  have "IsZero (Uncertain t') \<and> pureID (features t')"
    if "map_of tgs' n = Some t'" "isMarkName n" for n t'
  proof -
    from assms(2) that(1) obtain t where t: "map_of tgs n = Some t" "features t' = features t"
      "Uncertain t' = Uncertain t \<or> \<not> pureID (features t)"
      unfolding tagsEvolve_def by blast
    have "IsZero (Uncertain t) \<and> pureID (features t)"
      using assms(1) t(1) that(2) unfolding marksSettled_def by blast
    then show ?thesis
      using t by auto
  qed
  moreover have "distinct (map fst tgs')"
    using assms by (simp add: marksSettled_def tagsEvolve_def)
  ultimately show ?thesis
    unfolding marksSettled_def by blast
qed

lemma tagsEvolve_update:
  assumes "map_of tgs n = Some t" and "features t' = features t"
    and "Uncertain t' = Uncertain t \<or> \<not> pureID (features t)"
  shows "tagsEvolve tgs (AList.update n t' tgs)"
proof -
  have "n \<in> fst ` set tgs"
    using assms(1) by (metis map_of_None_iff option.distinct(1))
  then have "map fst (AList.update n t' tgs) = map fst tgs"
    by (simp add: update_keys)
  then show ?thesis
    using assms unfolding tagsEvolve_def by (auto simp: update_conv')
qed

lemma tagsEvolve_map:
  assumes "\<And>t. features (f t) = features t"
    and "\<And>t. Uncertain (f t) = Uncertain t \<or> \<not> pureID (features t)"
  shows "tagsEvolve tgs (map (\<lambda>(k, v). (k, f v)) tgs)"
proof -
  have "map fst (map (\<lambda>(k, v). (k, f v)) tgs) = map fst tgs"
    by (induction tgs) auto
  then show ?thesis
    using assms unfolding tagsEvolve_def by (auto simp: map_of_map_values)
qed

lemma not_pure_refs:
  "\<not> (length (MainTags f) = 0 \<and> length (SubQueryTags f) = 0) \<Longrightarrow> \<not> pureID f"
  by (auto simp: pureID_def)

lemma inheritStep_evolve:
  assumes "inheritStep allS tn st = Some st'"
  shows "tagsEvolve (snd st) (snd st')"
proof (cases "map_of (snd st) tn")
  case None
  then show ?thesis
    using assms by (auto simp: inheritStep_def tagsEvolve_refl)
next
  case (Some ti)
  show ?thesis
  proof (cases "tn \<in> set (fst st) \<or> (\<exists>rtn\<in>set (referencedTags ti). rtn \<notin> set (fst st))
                 \<or> (length (MainTags (features ti)) = 0 \<and> length (SubQueryTags (features ti)) = 0)")
    case True
    then have "snd st' = snd st"
      using assms Some by (auto simp: inheritStep_def Let_def split: if_splits)
    then show ?thesis
      by (simp add: tagsEvolve_refl)
  next
    case False
    then have np: "\<not> pureID (features ti)"
      using not_pure_refs by blast
    from False assms Some obtain u where "snd st' = AList.update tn (ti\<lparr>Uncertain := u\<rparr>) (snd st)"
      by (auto simp: inheritStep_def Let_def split: if_splits option.splits bool.splits)
    then show ?thesis
      using tagsEvolve_update [OF Some, of "ti\<lparr>Uncertain := u\<rparr>"] np by simp
  qed
qed

lemma inheritPass_evolve:
  "inheritPass allS order st = Some st' \<Longrightarrow> tagsEvolve (snd st) (snd st')"
proof (induction order arbitrary: st)
  case Nil
  then show ?case by (simp add: tagsEvolve_refl)
next
  case (Cons tn order)
  then obtain st1 where s1: "inheritStep allS tn st = Some st1" "inheritPass allS order st1 = Some st'"
    by (auto split: option.splits)
  show ?case
    using tagsEvolve_trans [OF inheritStep_evolve [OF s1(1)] Cons.IH [OF s1(2)]] .
qed

lemma inheritLoop_evolve:
  "inheritLoop allS orders resolved tgs = Some tgs' \<Longrightarrow> tagsEvolve tgs tgs'"
proof (induction orders arbitrary: resolved tgs)
  case Nil
  then show ?case by (auto simp: tagsEvolve_refl split: if_splits)
next
  case (Cons order orders)
  show ?case
  proof (cases "length resolved \<noteq> length tgs")
    case False
    then show ?thesis using Cons.prems by (simp add: tagsEvolve_refl)
  next
    case True
    then obtain st where st: "inheritPass allS order (resolved, tgs) = Some st"
      "inheritLoop allS orders (fst st) (snd st) = Some tgs'"
      using Cons.prems by (auto split: option.splits)
    show ?thesis
      using tagsEvolve_trans [OF inheritPass_evolve [OF st(1)] Cons.IH [OF st(2)]] by simp
  qed
qed

lemma inheritTagUncertainty_evolve:
  "inheritTagUncertainty orders mgr = Some mgr' \<Longrightarrow> tagsEvolve (tags mgr) (tags mgr')"
  by (auto simp: inheritTagUncertainty_def split: option.splits dest: inheritLoop_evolve)

lemma invalidateTag_evolve:
  "Uncertain (invalidateTag allS u a t) = Uncertain t \<or> \<not> pureID (features t)"
  by (auto simp: invalidateTag_def pureID_def Let_def)

lemma invalidateTags_evolve:
  assumes "invalidateTags orders u a mgr = Some mgr'"
  shows "tagsEvolve (tags mgr) (tags mgr')"
proof -
  let ?tgs1 = "map (\<lambda>(tn, ti). (tn, invalidateTag (allStreams mgr) u a ti)) (tags mgr)"
  have "tagsEvolve (tags mgr) ?tgs1"
    by (rule tagsEvolve_map) (simp_all add: invalidateTag_features invalidateTag_evolve)
  moreover have "tagsEvolve ?tgs1 (tags mgr')"
    using assms inheritTagUncertainty_evolve [of orders "mgr\<lparr>tags := ?tgs1\<rparr>" mgr']
    by (simp add: invalidateTags_def)
  ultimately show ?thesis
    by (rule tagsEvolve_trans)
qed

lemma startTaggingJobIfNeeded_tags:
  "startTaggingJobIfNeeded order mgr = Some mgr' \<Longrightarrow> tags mgr' = tags mgr"
  by (auto simp: startTaggingJobIfNeeded_def getIndexesCopy_def lock_def Let_def
        split: if_splits option.splits prod.splits)

lemma startConverterJobIfNeeded_tags:
  "startConverterJobIfNeeded order mgr = Some mgr' \<Longrightarrow> tags mgr' = tags mgr"
  by (auto simp: startConverterJobIfNeeded_def getIndexesCopy_def lock_def Let_def
        split: if_splits option.splits)

lemma IsZero_Nil: "IsZero []"
  by (simp add: IsZero_def)

lemma release_tags: "tags (release h mgr) = tags mgr"
  by (simp add: release_def Let_def)

lemma convertStreamJob_evolve:
  assumes "convertStreamJob tagOrder converterOrder converter streamIDs converted releaser mgr
             = Some mgr'"
  shows "tagsEvolve (tags mgr) (tags mgr')"
proof (cases "converter \<notin> set (mconverters mgr)")
  case True
  then obtain mgr2 where "startConverterJobIfNeeded converterOrder (mgr\<lparr>converterJobRunning := False\<rparr>)
                            = Some mgr2" "mgr' = release releaser mgr2"
    using assms by (auto simp: convertStreamJob_def Let_def split: Option.bind_splits)
  then show ?thesis
    using startConverterJobIfNeeded_tags [of converterOrder "mgr\<lparr>converterJobRunning := False\<rparr>" mgr2]
    by (simp add: release_tags tagsEvolve_refl)
next
  case False
  let ?f = "\<lambda>tg. if FeatureFilterData \<notin> MainFeatures (features tg)
                      \<and> FeatureFilterData \<notin> SubQueryFeatures (features tg)
                   then tg else tg\<lparr>Uncertain := Or_mask (Uncertain tg) converted\<rparr>"
  from False assms obtain queues mgr3 mgr4 where
    s: "startTaggingJobIfNeeded tagOrder
          (mgr\<lparr>converterJobRunning := False, streamsToConvert := queues,
               tags := map (\<lambda>(tn, tg). (tn, ?f tg)) (tags mgr)\<rparr>) = Some mgr3"
       "startConverterJobIfNeeded converterOrder mgr3 = Some mgr4"
       "mgr' = release releaser mgr4"
    by (auto simp: convertStreamJob_def Let_def split: Option.bind_splits)
  have "tags mgr' = map (\<lambda>(tn, tg). (tn, ?f tg)) (tags mgr)"
    using startTaggingJobIfNeeded_tags [OF s(1)] startConverterJobIfNeeded_tags [OF s(2)] s(3)
    by (simp add: release_tags)
  moreover have "tagsEvolve (tags mgr) (map (\<lambda>(tn, tg). (tn, ?f tg)) (tags mgr))"
    by (rule tagsEvolve_map) (auto simp: pureID_def)
  ultimately show ?thesis
    by simp
qed

lemma marksSettled_update:
  assumes "marksSettled tgs" and "map_of tgs n \<noteq> None"
    and "isMarkName n \<longrightarrow> IsZero (Uncertain t) \<and> pureID (features t)"
  shows "marksSettled (AList.update n t tgs)"
proof -
  have "n \<in> fst ` set tgs"
    using assms(2) by (simp add: map_of_None_iff)
  then have "map fst (AList.update n t tgs) = map fst tgs"
    by (simp add: update_keys)
  then show ?thesis
    using assms unfolding marksSettled_def by (auto simp: update_conv')
qed

lemma startMergeJobIfNeeded_tags: "tags (startMergeJobIfNeeded mgr) = tags mgr"
  by (rule startMergeJobIfNeeded_fields)

lemma updateTagJob_settled:
  assumes "marksSettled (tags mgr)" and "isMarkName name \<longrightarrow> pureID (features t0)"
    and "updateTagJob orders tagOrder converterOrder name t0 found releaser mgr = Some mgr'"
  shows "marksSettled (tags mgr')"
proof -
  let ?t = "updateTagJob_result t0 found"
  have t: "Uncertain ?t = []" "features ?t = features t0"
    by (simp_all add: updateTagJob_result_def split: sum.splits)
  from assms(3) obtain mgr2 mgr3 mgr4 where
    s: "(case map_of (tags mgr) name of
           None \<Rightarrow> Some mgr
         | Some ot \<Rightarrow>
             if tagDefinition ot = tagDefinition ?t
             then Option.bind (orIntoQueues (converters ?t) (Matches ?t) (streamsToConvert mgr))
                    (\<lambda>queues.
                       let mgr1 = mgr\<lparr>streamsToConvert := queues,
                                      tags := AList.update name ?t (tags mgr)\<rparr>
                       in if \<not> (IsZero (updatedStreamsDuringTaggingJob mgr1)
                                  \<and> IsZero (addedStreamsDuringTaggingJob mgr1))
                          then invalidateTags orders (updatedStreamsDuringTaggingJob mgr1)
                                 (addedStreamsDuringTaggingJob mgr1) mgr1
                          else Some mgr1)
             else Some mgr) = Some mgr2"
       "startTaggingJobIfNeeded tagOrder (mgr2\<lparr>taggingJobRunning := False\<rparr>) = Some mgr3"
       "startConverterJobIfNeeded converterOrder (startMergeJobIfNeeded mgr3) = Some mgr4"
       "mgr' = release releaser mgr4"
    by (auto simp: updateTagJob_def Let_def split: Option.bind_splits)
  have same: "tags mgr' = tags mgr2"
    using startTaggingJobIfNeeded_tags [OF s(2)] startConverterJobIfNeeded_tags [OF s(3)] s(4)
    by (simp add: release_tags startMergeJobIfNeeded_tags)
  have "marksSettled (tags mgr2)"
  proof (cases "map_of (tags mgr) name")
    case None
    then show ?thesis using s(1) assms(1) by simp
  next
    case (Some ot)
    show ?thesis
    proof (cases "tagDefinition ot = tagDefinition ?t")
      case False
      then show ?thesis using s(1) Some assms(1) by simp
    next
      case True
      have upd: "marksSettled (AList.update name ?t (tags mgr))"
        using assms(1,2) Some t by (intro marksSettled_update) (simp_all add: IsZero_Nil)
      from True s(1) Some obtain queues where
        q: "(let mgr1 = mgr\<lparr>streamsToConvert := queues,
                           tags := AList.update name ?t (tags mgr)\<rparr>
             in if \<not> (IsZero (updatedStreamsDuringTaggingJob mgr1)
                        \<and> IsZero (addedStreamsDuringTaggingJob mgr1))
                then invalidateTags orders (updatedStreamsDuringTaggingJob mgr1)
                       (addedStreamsDuringTaggingJob mgr1) mgr1
                else Some mgr1) = Some mgr2"
        by (auto split: Option.bind_splits)
      let ?mgr1 = "mgr\<lparr>streamsToConvert := queues, tags := AList.update name ?t (tags mgr)\<rparr>"
      show ?thesis
      proof (cases "IsZero (updatedStreamsDuringTaggingJob mgr)
                      \<and> IsZero (addedStreamsDuringTaggingJob mgr)")
        case True
        then have "mgr2 = ?mgr1"
          using q by (simp add: Let_def)
        then show ?thesis using upd by simp
      next
        case False
        then have "invalidateTags orders (updatedStreamsDuringTaggingJob mgr)
                     (addedStreamsDuringTaggingJob mgr) ?mgr1 = Some mgr2"
          using q by (auto simp: Let_def)
        from invalidateTags_evolve [OF this] show ?thesis
          using marksSettled_evolve [OF upd] by simp
      qed
    qed
  qed
  then show ?thesis
    using same by simp
qed

lemma marksSettled_append:
  assumes "marksSettled tgs" and "n \<notin> fst ` set tgs"
    and "isMarkName n \<longrightarrow> IsZero (Uncertain t) \<and> pureID (features t)"
  shows "marksSettled (tgs @ [(n, t)])"
proof -
  have nn: "map_of tgs n = None"
    using assms(2) by (simp add: map_of_None_iff)
  have "map_of (tgs @ [(n, t)]) k = (if k = n then Some t else map_of tgs k)" for k
    using nn by (auto simp: map_add_def split: option.splits)
  then show ?thesis
    using assms unfolding marksSettled_def by auto
qed

lemma AddTag_job_settled:
  assumes "marksSettled (tags mgr)"
    and "isMark = isMarkName name"
    and "isMark \<longrightarrow> IsZero (Uncertain nt) \<and> pureID (features nt)"
    and "AddTag_job tagOrder name isMark q nt mgr = Some (res, mgr')"
  shows "marksSettled (tags mgr')"
proof (cases "map_of (tags mgr) name \<noteq> None
              \<or> List.find (\<lambda>t. map_of (tags mgr) t = None) (referencedTags nt) \<noteq> None")
  case True
  then have "mgr' = mgr"
    using assms(4) by (auto simp: AddTag_job_def split: option.splits if_splits)
  then show ?thesis using assms(1) by simp
next
  case False
  then have fresh: "name \<notin> fst ` set (tags mgr)"
    by (simp add: map_of_None_iff)
  let ?nt' = "if isMark then nt\<lparr>Matches := fst (StreamIDs (QConditions q) (nextStreamID mgr))\<rparr>
              else nt\<lparr>Uncertain := allStreams mgr\<rparr>"
  have "tags mgr' = tags mgr @ [(name, ?nt')]"
    using False assms(4) fresh
    by (auto simp: AddTag_job_def Let_def update_append split: if_splits Option.bind_splits
          dest: startTaggingJobIfNeeded_tags)
  moreover have "marksSettled (tags mgr @ [(name, ?nt')])"
    using assms(1) fresh assms(2,3) by (intro marksSettled_append) auto
  ultimately show ?thesis by simp
qed

lemma AddTag_settled:
  assumes "marksSettled (tags mgr)" and "idSetsArePure Parse"
    and "AddTag Parse tagOrder name clr queryString mgr = Some (res, mgr')"
  shows "marksSettled (tags mgr')"
proof (cases "Parse queryString")
  case (Inl err)
  then have "mgr' = mgr"
    using assms(3) by (auto simp: AddTag_def Let_def split: if_splits)
  then show ?thesis using assms(1) by simp
next
  case (Inr q)
  let ?nt = "\<lparr>Matches = [], Uncertain = [], Conditions = QConditions q,
              tagDefinition = queryString, features = Features (QConditions q), color = clr,
              converters = []\<rparr>"
  have "mgr' = mgr
        \<or> (\<not> (isMarkName name \<and> \<not> snd (StreamIDs (QConditions q) 0))
           \<and> AddTag_job tagOrder name (isMarkName name) q ?nt mgr = Some (res, mgr'))"
    using assms(3) Inr by (auto simp: AddTag_def Let_def isMarkName_def split: if_splits)
  then show ?thesis
  proof
    assume "mgr' = mgr"
    then show ?thesis using assms(1) by simp
  next
    assume a: "\<not> (isMarkName name \<and> \<not> snd (StreamIDs (QConditions q) 0))
           \<and> AddTag_job tagOrder name (isMarkName name) q ?nt mgr = Some (res, mgr')"
    have "isMarkName name \<longrightarrow> IsZero (Uncertain ?nt) \<and> pureID (features ?nt)"
      using a assms(2) Inr unfolding idSetsArePure_def by (auto simp: IsZero_Nil)
    then show ?thesis
      using AddTag_job_settled [OF assms(1) refl _ a [THEN conjunct2]] by blast
  qed
qed

lemma attachConverterToTag_evolve:
  assumes "attachConverterToTag converterOrder tagName converter mgr = Some (e, mgr')"
  shows "tagsEvolve (tags mgr) (tags mgr')"
proof (cases "map_of (tags mgr) tagName")
  case None
  then show ?thesis using assms by (simp add: attachConverterToTag_def)
next
  case (Some tg)
  have "mgr' = mgr
        \<or> tags mgr' = AList.update tagName (tg\<lparr>converters := converters tg @ [converter]\<rparr>) (tags mgr)"
    using assms Some
    by (auto simp: attachConverterToTag_def split: if_splits option.splits Option.bind_splits
          dest!: startConverterJobIfNeeded_tags)
  then show ?thesis
    using tagsEvolve_update [OF Some, of "tg\<lparr>converters := converters tg @ [converter]\<rparr>"]
    by (auto simp: tagsEvolve_refl)
qed

lemma detachConverterFromTag_evolve:
  assumes "detachConverterFromTag Reset tagName converter mgr = Some (e, mgr')"
  shows "tagsEvolve (tags mgr) (tags mgr')"
proof (cases "map_of (tags mgr) tagName")
  case None
  then show ?thesis using assms by (simp add: detachConverterFromTag_def)
next
  case (Some tg)
  have "tags mgr' = AList.update tagName (tg\<lparr>converters := remove1 converter (converters tg)\<rparr>) (tags mgr)"
    using assms Some
    by (auto simp: detachConverterFromTag_def Let_def split: if_splits option.splits)
  then show ?thesis
    using tagsEvolve_update [OF Some, of "tg\<lparr>converters := remove1 converter (converters tg)\<rparr>"]
    by simp
qed

lemma detachDeselected_evolve:
  "detachDeselected Reset names name n i arr mgr = Some (e, mgr')
     \<Longrightarrow> tagsEvolve (tags mgr) (tags mgr')"
proof (induction n arbitrary: i arr mgr)
  case 0
  then show ?case by (simp add: tagsEvolve_refl)
next
  case (Suc n)
  show ?case
  proof (cases "arr ! i \<in> set names")
    case True
    then show ?thesis using Suc by (simp add: Let_def)
  next
    case False
    then obtain tg where tg: "map_of (tags mgr) name = Some tg"
      using Suc.prems by (auto simp: Let_def split: option.splits)
    let ?arr1 = "if arr ! i \<in> set (converters tg)
                 then remove1 (arr ! i) (converters tg) @ drop (length (converters tg) - 1) arr
                 else arr"
    from Suc.prems False tg obtain e1 mgr1 where
      d: "detachConverterFromTag Reset name (arr ! i) mgr = Some (e1, mgr1)"
      by (auto simp: Let_def split: option.splits)
    note ev1 = detachConverterFromTag_evolve [OF d]
    show ?thesis
    proof (cases e1)
      case (Some err)
      then have "mgr' = mgr1"
        using Suc.prems False tg d by (simp add: Let_def)
      then show ?thesis using ev1 by simp
    next
      case None
      then have "detachDeselected Reset names name n (Suc i) ?arr1 mgr1 = Some (e, mgr')"
        using Suc.prems False tg d by (simp add: Let_def)
      from Suc.IH [OF this] show ?thesis
        using ev1 tagsEvolve_trans by blast
    qed
  qed
qed

lemma attachSelected_evolve:
  "attachSelected converterOrder converterNames name names mgr = Some (e, mgr')
     \<Longrightarrow> tagsEvolve (tags mgr) (tags mgr')"
proof (induction names arbitrary: mgr)
  case Nil
  then show ?case by (simp add: tagsEvolve_refl)
next
  case (Cons converterName rest)
  show ?case
  proof (cases "converterName \<in> set converterNames")
    case True
    then show ?thesis using Cons by simp
  next
    case notin: False
    show ?thesis
    proof (cases "converterName \<notin> set (mconverters mgr)")
      case True
      then show ?thesis using Cons.prems notin by (simp add: tagsEvolve_refl)
    next
      case False
      from Cons.prems notin False obtain e1 mgr1 where
        a: "attachConverterToTag converterOrder name converterName mgr = Some (e1, mgr1)"
        by (auto split: option.splits)
      note ev1 = attachConverterToTag_evolve [OF a]
      show ?thesis
      proof (cases e1)
        case (Some err)
        then have "mgr' = mgr1"
          using Cons.prems notin False a by simp
        then show ?thesis using ev1 by simp
      next
        case None
        then have "attachSelected converterOrder converterNames name rest mgr1 = Some (e, mgr')"
          using Cons.prems notin False a by simp
        from Cons.IH [OF this] show ?thesis
          using ev1 tagsEvolve_trans by blast
      qed
    qed
  qed
qed

lemma updateConverters_evolve:
  assumes "updateConverters Reset converterOrder name names mgr = Some (e, mgr')"
  shows "tagsEvolve (tags mgr) (tags mgr')"
proof (cases "map_of (tags mgr) name")
  case None
  then show ?thesis using assms by (simp add: updateConverters_def)
next
  case (Some tg)
  show ?thesis
  proof (cases "detachDeselected Reset names name (length (converters tg)) 0 (converters tg) mgr")
    case None
    then show ?thesis using assms Some by (simp add: updateConverters_def)
  next
    case d: (Some r)
    obtain e1 mgr1 where r: "r = (e1, mgr1)"
      by (cases r)
    note ev1 = detachDeselected_evolve [OF d [unfolded r]]
    show ?thesis
    proof (cases e1)
      case (Some err)
      then have "mgr' = mgr1"
        using assms d r \<open>map_of (tags mgr) name = Some tg\<close> by (simp add: updateConverters_def)
      then show ?thesis using ev1 by simp
    next
      case None
      then have "\<exists>tg1 :: tag. attachSelected converterOrder (converters tg1) name names mgr1
                        = Some (e, mgr')"
        using assms d r \<open>map_of (tags mgr) name = Some tg\<close>
        by (auto simp: updateConverters_def split: option.splits)
      then obtain tg1 :: tag where
        "attachSelected converterOrder (converters tg1) name names mgr1 = Some (e, mgr')"
        by blast
      from attachSelected_evolve [OF this] show ?thesis
        using ev1 tagsEvolve_trans by blast
    qed
  qed
qed

lemma fold_mark_features:
  "features (fold (\<lambda>sid t. t\<lparr>Matches := f (Matches t) sid,
                               Uncertain := Set_bit (Uncertain t) sid\<rparr>) streams (t0 :: tag))
     = features t0"
  by (induction streams arbitrary: t0) simp_all

lemma updateMarks_settled:
  assumes settled: "marksSettled (tags mgr)" and mark: "isMarkName name"
    and run: "updateMarks Parse orders tagOrder name info maxUsedStreamID mgr = Some (res, mgr')"
  shows "marksSettled (tags mgr')"
proof (cases "maxUsedStreamID \<ge> nextStreamID mgr")
  case True
  then have "mgr' = mgr"
    using run by (simp add: updateMarks_def)
  then show ?thesis using settled by simp
next
  case False
  from run False obtain tg where tg: "map_of (tags mgr) name = Some tg"
    by (auto simp: updateMarks_def split: option.splits)
  define added where "added = fold (\<lambda>sid t. t\<lparr>Matches := Set_bit (Matches t) sid,
                                           Uncertain := Set_bit (Uncertain t) sid\<rparr>)
                           (markTagAddStreams info) (tg\<lparr>Matches := Copy (Matches tg)\<rparr>)"
  define deleted where "deleted = fold (\<lambda>sid t. t\<lparr>Matches := Unset (Matches t) sid,
                                             Uncertain := Set_bit (Uncertain t) sid\<rparr>)
                             (markTagDelStreams info) added"
  define newTag where "newTag = deleted\<lparr>tagDefinition := markDefinition (Matches deleted)\<rparr>"
  define newTag1 where "newTag1 = (case Parse (tagDefinition newTag) of
                              Inr q \<Rightarrow> newTag\<lparr>Conditions := QConditions q\<rparr>
                            | Inl err \<Rightarrow> newTag)"
  have feat: "features newTag1 = features tg"
    by (simp add: newTag1_def newTag_def deleted_def added_def fold_mark_features split: sum.splits)
  let ?tgs1 = "AList.update name newTag1 (tags mgr)"
  from run False tg obtain mgr1 t1 mgr2 where
    s: "inheritTagUncertainty orders (mgr\<lparr>tags := ?tgs1\<rparr>) = Some mgr1"
       "map_of (tags mgr1) name = Some t1"
       "startTaggingJobIfNeeded tagOrder
          (mgr1\<lparr>tags := AList.update name (t1\<lparr>Uncertain := []\<rparr>) (tags mgr1)\<rparr>) = Some mgr2"
       "mgr' = mgr2"
    unfolding updateMarks_def newTag1_def newTag_def deleted_def added_def
    by (auto simp: Let_def split: option.splits Option.bind_splits)
  have ev: "tagsEvolve ?tgs1 (tags mgr1)"
    using inheritTagUncertainty_evolve [OF s(1)] by simp
  have key: "name \<in> fst ` set (tags mgr)"
    using tg by (metis map_of_None_iff option.distinct(1))
  have keys1: "map fst ?tgs1 = map fst (tags mgr)"
    using key by (simp add: update_keys)
  have pure_tg: "pureID (features tg)"
    using settled tg mark unfolding marksSettled_def by blast
  text \<open>After inheritance every mark but \<open>name\<close> is as settled as before.\<close>
  have others: "IsZero (Uncertain t') \<and> pureID (features t')"
    if "map_of (tags mgr1) n = Some t'" "isMarkName n" "n \<noteq> name" for n t'
  proof -
    from ev that(1) obtain t where t: "map_of ?tgs1 n = Some t" "features t' = features t"
      "Uncertain t' = Uncertain t \<or> \<not> pureID (features t)"
      unfolding tagsEvolve_def by blast
    have "map_of (tags mgr) n = Some t"
      using t(1) that(3) by (simp add: update_conv')
    then have "IsZero (Uncertain t) \<and> pureID (features t)"
      using settled that(2) unfolding marksSettled_def by blast
    then show ?thesis using t by auto
  qed
  have feat1: "features t1 = features tg"
  proof -
    from ev s(2) obtain t where "map_of ?tgs1 name = Some t" "features t1 = features t"
      unfolding tagsEvolve_def by blast
    then show ?thesis using feat by (simp add: update_conv')
  qed
  have keys2: "map fst (tags mgr1) = map fst (tags mgr)"
    using ev keys1 by (simp add: tagsEvolve_def)
  have key2: "name \<in> fst ` set (tags mgr1)"
    using s(2) by (metis map_of_None_iff option.distinct(1))
  let ?tgs2 = "AList.update name (t1\<lparr>Uncertain := []\<rparr>) (tags mgr1)"
  have "map fst ?tgs2 = map fst (tags mgr)"
    using key keys2 by (simp add: update_keys)
  moreover have "distinct (map fst (tags mgr))"
    using settled by (simp add: marksSettled_def)
  moreover have "IsZero (Uncertain t') \<and> pureID (features t')"
    if "map_of ?tgs2 n = Some t'" "isMarkName n" for n t'
  proof (cases "n = name")
    case True
    then have "t' = t1\<lparr>Uncertain := []\<rparr>"
      using that(1) by (simp add: update_conv')
    then show ?thesis
      using feat1 pure_tg by (simp add: IsZero_Nil)
  next
    case False
    then have "map_of (tags mgr1) n = Some t'"
      using that(1) by (simp add: update_conv')
    then show ?thesis
      using others that(2) False by blast
  qed
  ultimately have "marksSettled ?tgs2"
    unfolding marksSettled_def by simp
  then show ?thesis
    using startTaggingJobIfNeeded_tags [OF s(3)] s(4) by simp
qed

lemma UpdateTag_job_settled:
  assumes settled: "marksSettled (tags mgr)" and mark: "maxUsedStreamID \<noteq> 0 \<longrightarrow> isMarkName name"
    and run: "UpdateTag_job Parse Reset orders tagOrder converterOrder name info maxUsedStreamID mgr
                = Some (res, mgr')"
  shows "marksSettled (tags mgr')"
proof (cases "map_of (tags mgr) name")
  case None
  then have "mgr' = mgr"
    using run by (simp add: UpdateTag_job_def)
  then show ?thesis using settled by simp
next
  case (Some tg)
  let ?mgr1 = "if newColor info \<noteq> []
               then mgr\<lparr>tags := AList.update name (tg\<lparr>color := newColor info\<rparr>) (tags mgr)\<rparr>
               else mgr"
  have ev1: "tagsEvolve (tags mgr) (tags ?mgr1)"
    using tagsEvolve_update [OF Some, of "tg\<lparr>color := newColor info\<rparr>"]
    by (simp add: tagsEvolve_refl)
  from run Some obtain e2 mgr2 where
    c: "(if convertersUpdated info
         then updateConverters Reset converterOrder name (setConverterNames info) ?mgr1
         else Some (None, ?mgr1)) = Some (e2, mgr2)"
    by (auto simp: UpdateTag_job_def Let_def split: option.splits)
  have ev2: "tagsEvolve (tags ?mgr1) (tags mgr2)"
    using c updateConverters_evolve [of Reset converterOrder name "setConverterNames info" ?mgr1 e2 mgr2]
    by (auto simp: tagsEvolve_refl split: if_splits)
  have settled2: "marksSettled (tags mgr2)"
    using marksSettled_evolve [OF settled tagsEvolve_trans [OF ev1 ev2]] .
  show ?thesis
  proof (cases e2)
    case (Some err)
    then have "mgr' = mgr2"
      using run \<open>map_of (tags mgr) name = Some tg\<close> c by (simp add: UpdateTag_job_def Let_def)
    then show ?thesis using settled2 by simp
  next
    case None
    show ?thesis
    proof (cases "maxUsedStreamID \<noteq> 0")
      case True
      then have "updateMarks Parse orders tagOrder name info maxUsedStreamID mgr2 = Some (res, mgr')"
        using run \<open>map_of (tags mgr) name = Some tg\<close> c None by (simp add: UpdateTag_job_def Let_def)
      from updateMarks_settled [OF settled2 _ this] show ?thesis
        using mark True by blast
    next
      case False
      then have "mgr' = mgr2"
        using run \<open>map_of (tags mgr) name = Some tg\<close> c None by (simp add: UpdateTag_job_def Let_def)
      then show ?thesis using settled2 by simp
    qed
  qed
qed

lemma UpdateTag_settled:
  assumes settled: "marksSettled (tags mgr)"
    and run: "UpdateTag Parse Reset orders tagOrder converterOrder name operation mgr
                = Some (res, mgr')"
  shows "marksSettled (tags mgr')"
proof -
  define info where "info = applyOperation operation
                   \<lparr>markTagAddStreams = [], markTagDelStreams = [], newColor = [],
                    setConverterNames = [], convertersUpdated = False\<rparr>"
  show ?thesis
  proof (cases "length (markTagAddStreams info) \<noteq> 0 \<or> length (markTagDelStreams info) \<noteq> 0")
    case False
    then have "UpdateTag_job Parse Reset orders tagOrder converterOrder name info 0 mgr
                 = Some (res, mgr')"
      using run unfolding UpdateTag_def info_def [symmetric] by (simp add: Let_def)
    from UpdateTag_job_settled [OF settled _ this] show ?thesis by simp
  next
    case True
    show ?thesis
    proof (cases "HasPrefix name ''mark/'' \<or> HasPrefix name ''generated/''")
      case False
      then have "mgr' = mgr"
        using run True unfolding UpdateTag_def info_def [symmetric] by (auto simp: Let_def)
      then show ?thesis using settled by simp
    next
      case mark: True
      let ?m = "raiseMaxUsed (markTagDelStreams info) (raiseMaxUsed (markTagAddStreams info) 0)"
      show ?thesis
      proof (cases "?m = 0")
        case True
        then have "mgr' = mgr"
          using run \<open>length (markTagAddStreams info) \<noteq> 0 \<or> length (markTagDelStreams info) \<noteq> 0\<close> mark
          unfolding UpdateTag_def info_def [symmetric] by (auto simp: Let_def)
        then show ?thesis using settled by simp
      next
        case False
        then have "UpdateTag_job Parse Reset orders tagOrder converterOrder name info (?m - 1) mgr
                     = Some (res, mgr')"
          using run \<open>length (markTagAddStreams info) \<noteq> 0 \<or> length (markTagDelStreams info) \<noteq> 0\<close> mark
          unfolding UpdateTag_def info_def [symmetric] by (auto simp: Let_def)
        from UpdateTag_job_settled [OF settled _ this] show ?thesis
          using mark by (simp add: isMarkName_def)
      qed
    qed
  qed
qed

text \<open>
  Claim C8. Let the tag map hold distinct names and let every \<open>mark/\<close> and
  \<open>generated/\<close> tag have an empty \<open>Uncertain\<close> and the features of a pure id set. Then
  this is so again when one of these operations completes: \<open>AddTag\<close> (the parser giving
  a condition that reduces to an id set the features of one), \<open>UpdateTag\<close>, the
  invalidation of the tags after an import, the inheritance of uncertainty, the closure
  of a tagging job (the job's copy of a mark having the features of a pure id set, as
  it has when the job started in such a state) and the closure of a conversion job.
\<close>

theorem marks_stay_settled:
  assumes "marksSettled (tags mgr)"
  shows "(idSetsArePure Parse \<longrightarrow>
            (\<forall>res mgr'. AddTag Parse tagOrder name clr queryString mgr = Some (res, mgr')
               \<longrightarrow> marksSettled (tags mgr')))
       \<and> (\<forall>res mgr'. UpdateTag Parse Reset orders tagOrder converterOrder name operation mgr
                        = Some (res, mgr')
             \<longrightarrow> marksSettled (tags mgr'))
       \<and> (\<forall>mgr'. invalidateTags orders updatedStreams addedStreams mgr = Some mgr'
             \<longrightarrow> marksSettled (tags mgr'))
       \<and> (\<forall>mgr'. inheritTagUncertainty orders mgr = Some mgr' \<longrightarrow> marksSettled (tags mgr'))
       \<and> ((isMarkName name \<longrightarrow> pureID (features jobTag)) \<longrightarrow>
            (\<forall>mgr'. updateTagJob orders tagOrder converterOrder name jobTag found releaser mgr
                      = Some mgr'
               \<longrightarrow> marksSettled (tags mgr')))
       \<and> (\<forall>mgr'. convertStreamJob tagOrder converterOrder converter streamIDs
                     convertedStreamIDs releaser mgr = Some mgr'
             \<longrightarrow> marksSettled (tags mgr'))"
proof (intro conjI impI allI)
  fix res mgr'
  assume "idSetsArePure Parse"
    and "AddTag Parse tagOrder name clr queryString mgr = Some (res, mgr')"
  then show "marksSettled (tags mgr')"
    by (rule AddTag_settled [OF assms])
next
  fix res mgr'
  assume "UpdateTag Parse Reset orders tagOrder converterOrder name operation mgr
            = Some (res, mgr')"
  then show "marksSettled (tags mgr')"
    by (rule UpdateTag_settled [OF assms])
next
  fix mgr'
  assume "invalidateTags orders updatedStreams addedStreams mgr = Some mgr'"
  then show "marksSettled (tags mgr')"
    by (intro marksSettled_evolve [OF assms] invalidateTags_evolve)
next
  fix mgr'
  assume "inheritTagUncertainty orders mgr = Some mgr'"
  then show "marksSettled (tags mgr')"
    by (intro marksSettled_evolve [OF assms] inheritTagUncertainty_evolve)
next
  fix mgr'
  assume "isMarkName name \<longrightarrow> pureID (features jobTag)"
    and "updateTagJob orders tagOrder converterOrder name jobTag found releaser mgr = Some mgr'"
  then show "marksSettled (tags mgr')"
    by (rule updateTagJob_settled [OF assms])
next
  fix mgr'
  assume "convertStreamJob tagOrder converterOrder converter streamIDs
            convertedStreamIDs releaser mgr = Some mgr'"
  then show "marksSettled (tags mgr')"
    by (intro marksSettled_evolve [OF assms] convertStreamJob_evolve)
qed

lemma favs_settled: "marksSettled (tags favsManager)"
  by (simp add: marksSettled_def favsManager_fields favsTag_def IsZero_def pureID_def)

lemma exampleParse_pure: "idSetsArePure exampleParse"
  by (auto simp: idSetsArePure_def exampleParse_def idConditions_def pureID_def split: if_splits)

lemma AddTag_favs_two:
  "\<exists>mgr'. AddTag exampleParse [] ''mark/two'' ''#0f0'' ''id:3,5,7'' favsManager = Some (None, mgr')"
  by (simp add: AddTag_def AddTag_job_def HasPrefix_def SplitN2_def exampleParse_def
        idConditions_def referencedTags_def favsManager_fields Let_def)

lemma invalidateTags_favs:
  "\<exists>mgr'. invalidateTags [[''mark/favs'']] [] [True] favsManager = Some mgr'"
  by (simp add: invalidateTags_def inheritTagUncertainty_def invalidateTag_def inheritStep_def
        referencedTags_def favsManager_fields favsTag_def Let_def)

lemma inheritTagUncertainty_favs:
  "\<exists>mgr'. inheritTagUncertainty [[''mark/favs'']] favsManager = Some mgr'"
  by (simp add: inheritTagUncertainty_def inheritStep_def
        referencedTags_def favsManager_fields favsTag_def Let_def)

lemma convertStreamJob_favs:
  "\<exists>mgr'. convertStreamJob [''mark/favs''] [] ''upper'' [] [False, True] [] favsManager = Some mgr'"
  by (simp add: convertStreamJob_def startConverterJobIfNeeded_def favsManager_def
        threeIndexes_def emptyManager_def release_def Let_def)

lemma updateTagJob_favs:
  "\<exists>mgr'. updateTagJob [[''mark/favs'']] [''mark/favs''] [] ''mark/favs''
            (favsTag [False, False, False, True, False, False, False, True] ''id:3,7'')
            (Inr [3, 7]) [] (favsManager\<lparr>taggingJobRunning := True\<rparr>) = Some mgr'"
  by (simp add: updateTagJob_def updateTagJob_result_def favsManager_def
        threeIndexes_def emptyManager_def favsTag_def IsZero_def startTaggingJobIfNeeded_def
        startConverterJobIfNeeded_def release_def Let_def)


theorem marks_stay_settled_witness:
  "marksSettled (tags favsManager) \<and> idSetsArePure exampleParse
   \<and> pureID (features (favsTag [False, False, False, True, False, False, False, True] ''id:3,7''))
   \<and> (\<exists>mgr'. AddTag exampleParse [] ''mark/two'' ''#0f0'' ''id:3,5,7'' favsManager
                  = Some (None, mgr') \<and> marksSettled (tags mgr'))
   \<and> (\<exists>mgr'. UpdateTag exampleParse (\<lambda>c. None) [[''mark/favs'']] [''mark/favs''] []
                  ''mark/favs'' (UpdateTagOperationMarkAddStream [5]) favsManager
                  = Some (None, mgr') \<and> marksSettled (tags mgr'))
   \<and> (\<exists>mgr'. invalidateTags [[''mark/favs'']] [] [True] favsManager = Some mgr'
              \<and> marksSettled (tags mgr'))
   \<and> (\<exists>mgr'. inheritTagUncertainty [[''mark/favs'']] favsManager = Some mgr'
              \<and> marksSettled (tags mgr'))
   \<and> (\<exists>mgr'. convertStreamJob [''mark/favs''] [] ''upper'' [] [False, True] [] favsManager
                  = Some mgr' \<and> marksSettled (tags mgr'))
   \<and> (\<exists>mgr'. updateTagJob [[''mark/favs'']] [''mark/favs''] [] ''mark/favs''
                  (favsTag [False, False, False, True, False, False, False, True] ''id:3,7'')
                  (Inr [3, 7]) [] (favsManager\<lparr>taggingJobRunning := True\<rparr>) = Some mgr'
              \<and> marksSettled (tags mgr'))"
proof -
  note settled = favs_settled
  have pure: "pureID (features (favsTag [False, False, False, True, False, False, False, True] ''id:3,7''))"
    by (simp add: favsTag_def pureID_def)
  have a: "\<exists>mgr'. AddTag exampleParse [] ''mark/two'' ''#0f0'' ''id:3,5,7'' favsManager
                  = Some (None, mgr') \<and> marksSettled (tags mgr')"
    using AddTag_favs_two exampleParse_pure
      marks_stay_settled [OF settled, where Parse = exampleParse and tagOrder = "[]"
        and name = "''mark/two''" and clr = "''#0f0''" and queryString = "''id:3,5,7''",
        THEN conjunct1]
    by blast
  have b: "\<exists>mgr'. UpdateTag exampleParse (\<lambda>c. None) [[''mark/favs'']] [''mark/favs''] []
                  ''mark/favs'' (UpdateTagOperationMarkAddStream [5]) favsManager
                  = Some (None, mgr') \<and> marksSettled (tags mgr')"
    using UpdateTag_favs_add5
      marks_stay_settled [OF settled, where Parse = exampleParse and Reset = "\<lambda>c. None"
        and orders = "[[''mark/favs'']]" and tagOrder = "[''mark/favs'']" and converterOrder = "[]"
        and name = "''mark/favs''" and operation = "UpdateTagOperationMarkAddStream [5]",
        THEN conjunct2, THEN conjunct1]
    by blast
  have c: "\<exists>mgr'. invalidateTags [[''mark/favs'']] [] [True] favsManager = Some mgr'
              \<and> marksSettled (tags mgr')"
    using invalidateTags_favs
      marks_stay_settled [OF settled, where orders = "[[''mark/favs'']]"
        and updatedStreams = "[]" and addedStreams = "[True]",
        THEN conjunct2, THEN conjunct2, THEN conjunct1]
    by blast
  have d: "\<exists>mgr'. inheritTagUncertainty [[''mark/favs'']] favsManager = Some mgr'
              \<and> marksSettled (tags mgr')"
    using inheritTagUncertainty_favs
      marks_stay_settled [OF settled, where orders = "[[''mark/favs'']]",
        THEN conjunct2, THEN conjunct2, THEN conjunct2, THEN conjunct1]
    by blast
  have e: "\<exists>mgr'. convertStreamJob [''mark/favs''] [] ''upper'' [] [False, True] [] favsManager
                  = Some mgr' \<and> marksSettled (tags mgr')"
    using convertStreamJob_favs
      marks_stay_settled [OF settled, where tagOrder = "[''mark/favs'']" and converterOrder = "[]"
        and converter = "''upper''" and streamIDs = "[]" and convertedStreamIDs = "[False, True]"
        and releaser = "[]",
        THEN conjunct2, THEN conjunct2, THEN conjunct2, THEN conjunct2, THEN conjunct2]
    by blast
  have settled': "marksSettled (tags (favsManager\<lparr>taggingJobRunning := True\<rparr>))"
    using settled by simp
  have f: "\<exists>mgr'. updateTagJob [[''mark/favs'']] [''mark/favs''] [] ''mark/favs''
                  (favsTag [False, False, False, True, False, False, False, True] ''id:3,7'')
                  (Inr [3, 7]) [] (favsManager\<lparr>taggingJobRunning := True\<rparr>) = Some mgr'
              \<and> marksSettled (tags mgr')"
    using updateTagJob_favs pure
      marks_stay_settled [OF settled', where orders = "[[''mark/favs'']]"
        and tagOrder = "[''mark/favs'']" and converterOrder = "[]" and name = "''mark/favs''"
        and jobTag = "favsTag [False, False, False, True, False, False, False, True] ''id:3,7''"
        and found = "Inr [3, 7]" and releaser = "[]",
        THEN conjunct2, THEN conjunct2, THEN conjunct2, THEN conjunct2, THEN conjunct1]
    by blast
  show ?thesis
    using settled exampleParse_pure pure a b c d e f by blast
qed

section \<open>The converter cache\<close>

subsection \<open>Chunk sizes\<close>








lemma readVarInt_zero: "readVarInt (0 # rest) = Inr (0, 1, rest)"
  by (simp add: readVarInt_def)





lemma readChunkSizes_end:
  "readChunkSizes (0 # 0 # rest) ds False want bytes = Inr (ds @ [(0, want)], bytes, rest)"
proof -
  have a: "addBytes want 0 bytes = bytes"
    by (cases want; cases bytes) simp_all
  show ?thesis
    by (subst readChunkSizes.simps, simp add: readVarInt_zero a)
       (subst readChunkSizes.simps, simp add: readVarInt_zero)
qed




subsection \<open>Round trip\<close>










subsection \<open>Cleanup\<close>

lemma streamHeader_small:
  "streamHeader 1 = [1, 0, 0, 0, 0, 0, 0, 0]" "streamHeader 2 = [2, 0, 0, 0, 0, 0, 0, 0]"
  by code_simp+

lemma recordBody_big:
  "recordBody [bigPacket] = [0x88, 0x80, 0x80, 0, 0, 0] @ replicate 16777216 0x41"
  by (simp add: recordBody_def bigPacket_def packet_def chunkData_def varIntLoop.simps)

lemma recordBody_small:
  "recordBody [packet DirectionClientToServer [0x68, 0x69]] = [2, 0, 0, 0x68, 0x69]"
  "recordBody [packet DirectionClientToServer [0x78]] = [1, 0, 0, 0x78]"
  by code_simp+

lemma Suc_numerals:
  "Suc (Suc (Suc (Suc 0))) = 4" "Suc (Suc (Suc (Suc (Suc 0)))) = 5"
  by simp_all

lemma SetData_fresh:
  assumes "streamInfos c streamID = None"
  shows "SetData streamID ps c
           = (None, c\<lparr>fileData := writeAt (filePos c) (streamHeader streamID @ recordBody ps) (fileData c),
                 filePos := filePos c + length (streamHeader streamID @ recordBody ps),
                 streamInfos := (streamInfos c)
                    (streamID \<mapsto> \<lparr>info_offset = fileSize c + 8, info_size = length (recordBody ps)\<rparr>),
                 freeStart := (if freeStart c = fileSize c
                               then freeStart c + headerSize + int (length (recordBody ps))
                               else freeStart c),
                 fileSize := fileSize c + headerSize + int (length (recordBody ps))\<rparr>)"
  using assms by (simp add: SetData_def freeOlder_def Let_def)

lemma readVarInt_big: "readVarInt (0x88 # 0x80 # 0x80 # 0 # rest) = Inr (16777216, 4, rest)"
  by (simp add: readVarInt_def Let_def)

lemma readVarInt_two: "readVarInt (2 # rest) = Inr (2, 1, rest)"
  by (simp add: readVarInt_def Let_def)

lemma skipSizes_end: "skipSizes (0 # 0 # rest) 0 dataSize pos = Inr (dataSize, pos + 2, rest)"
  by (subst skipSizes.simps, simp add: readVarInt_zero)
     (subst skipSizes.simps, simp add: readVarInt_zero, subst skipSizes.simps, simp)

lemma skipSizes_big:
  "skipSizes (0x88 # 0x80 # 0x80 # 0 # 0 # 0 # rest) 0 0 pos = Inr (16777216, pos + 6, rest)"
  by (subst skipSizes.simps) (simp add: readVarInt_big skipSizes_end)

lemma skipSizes_two:
  "skipSizes (2 # 0 # 0 # rest) 0 0 pos = Inr (2, pos + 3, rest)"
  by (subst skipSizes.simps) (simp add: readVarInt_two skipSizes_end)

lemma streamHeader_3: "streamHeader 3 = [3, 0, 0, 0, 0, 0, 0, 0]"
  by code_simp

lemma recordBody_letters:
  "recordBody [packet DirectionClientToServer [0x61]] = [1, 0, 0, 0x61]"
  "recordBody [packet DirectionClientToServer [0x62]] = [1, 0, 0, 0x62]"
  "recordBody [newPacket]
     = [20, 0, 0, 0x42, 0x42, 0x42, 0x42, 0x42, 0x42, 0x42, 0x42, 0x42, 0x42,
        0x42, 0x42, 0x42, 0x42, 0x42, 0x42, 0x42, 0x42, 0x42, 0x42]"
  by code_simp+

lemma threeStreams_eq:
  "threeStreams =
     \<lparr>fileData = [1, 0, 0, 0, 0, 0, 0, 0, 1, 0, 0, 0x61,
                   2, 0, 0, 0, 0, 0, 0, 0, 2, 0, 0, 0x68, 0x69,
                   3, 0, 0, 0, 0, 0, 0, 0, 0x88, 0x80, 0x80, 0, 0, 0] @ replicate 16777216 0x41
                   @ [1, 0, 0, 0, 0, 0, 0, 0, 1, 0, 0, 0x62],
      filePos = 16777267, fileSize = 16777267, freeSize = 12, freeStart = 0,
      streamInfos = [2 \<mapsto> \<lparr>info_offset = 20, info_size = 5\<rparr>,
                     3 \<mapsto> \<lparr>info_offset = 33, info_size = 16777222\<rparr>,
                     1 \<mapsto> \<lparr>info_offset = 16777263, info_size = 4\<rparr>]\<rparr>"
proof -
  have a: "snd (SetData 1 [packet DirectionClientToServer [0x61]] emptyCache)
       = \<lparr>fileData = [1, 0, 0, 0, 0, 0, 0, 0, 1, 0, 0, 0x61],
          filePos = 12, fileSize = 12, freeSize = 0, freeStart = 12,
          streamInfos = [1 \<mapsto> \<lparr>info_offset = 8, info_size = 4\<rparr>]\<rparr>"
    by (simp add: SetData_fresh emptyCache_def streamHeader_small recordBody_letters writeAt_def
          headerSize_def Suc_numerals)
  have b: "snd (SetData 2 [packet DirectionClientToServer [0x68, 0x69]]
                  (snd (SetData 1 [packet DirectionClientToServer [0x61]] emptyCache)))
       = \<lparr>fileData = [1, 0, 0, 0, 0, 0, 0, 0, 1, 0, 0, 0x61,
                       2, 0, 0, 0, 0, 0, 0, 0, 2, 0, 0, 0x68, 0x69],
          filePos = 25, fileSize = 25, freeSize = 0, freeStart = 25,
          streamInfos = [1 \<mapsto> \<lparr>info_offset = 8, info_size = 4\<rparr>, 2 \<mapsto> \<lparr>info_offset = 20, info_size = 5\<rparr>]\<rparr>"
    unfolding a
    by (simp add: SetData_fresh streamHeader_small recordBody_small writeAt_def
          headerSize_def Suc_numerals)
  have c: "snd (SetData 3 [bigPacket]
             (snd (SetData 2 [packet DirectionClientToServer [0x68, 0x69]]
                  (snd (SetData 1 [packet DirectionClientToServer [0x61]] emptyCache)))))
       = \<lparr>fileData = [1, 0, 0, 0, 0, 0, 0, 0, 1, 0, 0, 0x61,
                       2, 0, 0, 0, 0, 0, 0, 0, 2, 0, 0, 0x68, 0x69,
                       3, 0, 0, 0, 0, 0, 0, 0, 0x88, 0x80, 0x80, 0, 0, 0] @ replicate 16777216 0x41,
          filePos = 16777255, fileSize = 16777255, freeSize = 0, freeStart = 16777255,
          streamInfos = [1 \<mapsto> \<lparr>info_offset = 8, info_size = 4\<rparr>, 2 \<mapsto> \<lparr>info_offset = 20, info_size = 5\<rparr>,
                         3 \<mapsto> \<lparr>info_offset = 33, info_size = 16777222\<rparr>]\<rparr>"
    unfolding b
    by (simp add: SetData_fresh streamHeader_3 recordBody_big writeAt_def
          headerSize_def Suc_numerals)
  have m: "[1 \<mapsto> \<lparr>info_offset = 8, info_size = 4\<rparr>, 2 \<mapsto> \<lparr>info_offset = 20, info_size = 5\<rparr>,
            3 \<mapsto> \<lparr>info_offset = 33, info_size = 16777222\<rparr>, 1 \<mapsto> \<lparr>info_offset = 16777263, info_size = 4\<rparr>]
           = [2 \<mapsto> \<lparr>info_offset = 20, info_size = 5\<rparr>, 3 \<mapsto> \<lparr>info_offset = 33, info_size = 16777222\<rparr>,
              (1 :: 64 word) \<mapsto> \<lparr>info_offset = 16777263, info_size = 4\<rparr>]"
    by (rule ext) simp
  show ?thesis
    unfolding threeStreams_def c
    by (simp add: SetData_def freeOlder_def markFree_def cleanupDue_def cleanupMinFreeSize_def
          streamHeader_small recordBody_letters writeAt_def headerSize_def Suc_numerals Let_def m)
qed

lemma readVarInt_one: "readVarInt (1 # rest) = Inr (1, 1, rest)"
  by (simp add: readVarInt_def Let_def)

lemma skipSizes_one:
  "skipSizes (1 # 0 # 0 # rest) 0 0 pos = Inr (1, pos + 3, rest)"
  by (subst skipSizes.simps) (simp add: readVarInt_one skipSizes_end)

lemma cleanupLoop_Nil: "cleanupLoop infos streamID [] pending pos = Inr pending"
  by (subst cleanupLoop.simps) simp

lemma cleanupLoop_threeStreams:
  assumes "infoOrZero infos streamID = zeroStreamInfo"
  shows "cleanupLoop infos streamID
           ([1, 0, 0, 0, 0, 0, 0, 0, 1, 0, 0, 0x61,
             2, 0, 0, 0, 0, 0, 0, 0, 2, 0, 0, 0x68, 0x69,
             3, 0, 0, 0, 0, 0, 0, 0, 0x88, 0x80, 0x80, 0, 0, 0] @ replicate 16777216 0x41
              @ [1, 0, 0, 0, 0, 0, 0, 0, 1, 0, 0, 0x62]) [] 0
           = Inr []"
proof -
  have l4: "cleanupLoop infos streamID [1, 0, 0, 0, 0, 0, 0, 0, 1, 0, 0, 0x62] [] 16777255 = Inr []"
    using assms
    by (subst cleanupLoop.simps)
       (simp add: Let_def zeroStreamInfo_def headerSize_def skipSizes_one cleanupLoop_Nil)
  have l3: "cleanupLoop infos streamID
              ([3, 0, 0, 0, 0, 0, 0, 0, 0x88, 0x80, 0x80, 0, 0, 0] @ replicate 16777216 0x41
                 @ [1, 0, 0, 0, 0, 0, 0, 0, 1, 0, 0, 0x62]) [] 25 = Inr []"
    using assms
    by (subst cleanupLoop.simps)
       (simp add: Let_def zeroStreamInfo_def headerSize_def skipSizes_big l4)
  have l2: "cleanupLoop infos streamID
              ([2, 0, 0, 0, 0, 0, 0, 0, 2, 0, 0, 0x68, 0x69,
                3, 0, 0, 0, 0, 0, 0, 0, 0x88, 0x80, 0x80, 0, 0, 0] @ replicate 16777216 0x41
                 @ [1, 0, 0, 0, 0, 0, 0, 0, 1, 0, 0, 0x62]) [] 12 = Inr []"
    using assms l3
    by (subst cleanupLoop.simps)
       (simp add: Let_def zeroStreamInfo_def headerSize_def skipSizes_two)
  show ?thesis
    using assms l2
    by (subst cleanupLoop.simps)
       (simp add: Let_def zeroStreamInfo_def headerSize_def skipSizes_one)
qed

lemma Suc_23: "Suc (Suc (Suc (Suc (Suc (Suc (Suc (Suc (Suc (Suc (Suc (Suc (Suc (Suc (Suc (Suc (Suc (Suc (Suc (Suc (Suc (Suc (Suc 0)))))))))))))))))))))) = 23"
  by simp

lemma overwritten_eq:
  "SetData 3 [newPacket] threeStreams =
     (None,
      \<lparr>fileData = [3, 0, 0, 0, 0, 0, 0, 0, 20, 0, 0,
                    0x42, 0x42, 0x42, 0x42, 0x42, 0x42, 0x42, 0x42, 0x42, 0x42,
                    0x42, 0x42, 0x42, 0x42, 0x42, 0x42, 0x42, 0x42, 0x42, 0x42,
                    0, 0, 0x88, 0x80, 0x80, 0, 0, 0] @ replicate 16777216 0x41
                   @ [1, 0, 0, 0, 0, 0, 0, 0, 1, 0, 0, 0x62],
       filePos = 31, fileSize = 16777298, freeSize = 0, freeStart = 0,
       streamInfos = [2 \<mapsto> \<lparr>info_offset = 20, info_size = 5\<rparr>,
                      1 \<mapsto> \<lparr>info_offset = 16777263, info_size = 4\<rparr>,
                      3 \<mapsto> \<lparr>info_offset = 16777275, info_size = 23\<rparr>]\<rparr>)"
proof -
  let ?infos = "[2 \<mapsto> \<lparr>info_offset = 20, info_size = 5\<rparr>, 3 \<mapsto> \<lparr>info_offset = 33, info_size = 16777222\<rparr>,
                 (1 :: 64 word) \<mapsto> \<lparr>info_offset = 16777263, info_size = 4\<rparr>]"
  have z: "infoOrZero (?infos(3 := None)) 3 = zeroStreamInfo"
    by (simp add: infoOrZero_def)
  have m: "(?infos(3 := None))(3 \<mapsto> \<lparr>info_offset = 16777275, info_size = 23\<rparr>)
             = [2 \<mapsto> \<lparr>info_offset = 20, info_size = 5\<rparr>, 1 \<mapsto> \<lparr>info_offset = 16777263, info_size = 4\<rparr>,
                (3 :: 64 word) \<mapsto> \<lparr>info_offset = 16777275, info_size = 23\<rparr>]"
    by (rule ext) simp
  have len: "length (recordBody [newPacket]) = 23"
    by (simp add: recordBody_letters)
  show ?thesis
    unfolding threeStreams_eq
    by (simp add: SetData_def freeOlder_def markFree_def cleanupDue_def cleanupMinFreeSize_def
          cleanup_def sectionBytes_def Truncate_def cleanupLoop_threeStreams [simplified]
          infoOrZero_def streamHeader_3 recordBody_letters writeAt_def headerSize_def Let_def Suc_23)
qed

lemma skipSizes_pos:
  "skipSizes reader nZeros dataSize pos = Inr (dataSize1, pos1, rest) \<Longrightarrow> pos \<le> pos1"
proof (induction reader nZeros dataSize pos rule: skipSizes.induct)
  case (1 reader nZeros dataSize pos)
  show ?case
  proof (cases "nZeros = 2")
    case True
    with "1.prems" show ?thesis by (simp add: skipSizes.simps)
  next
    case False
    with "1.prems" obtain sz n r where rv: "readVarInt reader = Inr (sz, n, r)"
      and rec: "skipSizes r (if sz \<noteq> 0 then 0 else nZeros + 1) (dataSize + sz) (pos + int n)
                  = Inr (dataSize1, pos1, rest)"
      by (subst (asm) skipSizes.simps) (auto split: sum.splits)
    from "1.IH" [OF False rv refl refl rec]
    show ?thesis by simp
  qed
qed

lemma cleanupLoop_copies_nothing:
  assumes "infoOrZero infos streamID = zeroStreamInfo" and "0 \<le> pos"
    and "cleanupLoop infos streamID reader pending pos = Inr out"
  shows "out = pending"
  using assms
proof (induction infos streamID reader pending pos rule: cleanupLoop.induct)
  case (1 infos streamID reader pending pos)
  note z = "1.prems"(1)
  show ?case
  proof (cases "reader = []")
    case True
    then show ?thesis using "1.prems"(3) by (simp add: cleanupLoop_Nil)
  next
    case ne: False
    show ?thesis
    proof (cases "length reader < 8")
      case True
      then show ?thesis
        using "1.prems"(3) ne by (subst (asm) cleanupLoop.simps) simp
    next
      case long: False
      have off: "info_offset (infoOrZero infos streamID) \<noteq> pos + headerSize"
        using z "1.prems"(2) by (simp add: zeroStreamInfo_def headerSize_def)
      from "1.prems"(3) ne long off obtain dataSize pos2 r2
        where sk: "skipSizes (drop 8 reader) 0 0 (pos + headerSize) = Inr (dataSize, pos2, r2)"
          and nn: "\<not> sint dataSize < 0" and en: "\<not> length r2 < nat (sint dataSize)"
          and rec: "cleanupLoop infos streamID (drop (nat (sint dataSize)) r2) pending
                      (pos2 + sint dataSize) = Inr out"
        by (subst (asm) cleanupLoop.simps) (auto simp: Let_def split: sum.splits if_splits)
      have "0 \<le> pos2 + sint dataSize"
        using skipSizes_pos [OF sk] "1.prems"(2) nn by (simp add: headerSize_def)
      from "1.IH"(2) [OF ne long refl refl refl refl off sk refl refl nn en z this rec]
      show ?thesis .
    qed
  qed
qed

lemma readVarInt_B: "readVarInt (0x42 # rest) = Inr (0x42, 1, rest)"
  by (simp add: readVarInt_def Let_def)

lemma readVarInt_Nil: "readVarInt [] = Inl ErrEOF"
  by (simp add: readVarInt_def)

lemma readChunkSizes_B:
  "readChunkSizes [0x42, 0x42, 0x42, 0x42, 0x42] ds prev d bytes = Inl ErrEOF"
  by (simp add: readChunkSizes.simps readVarInt_B readVarInt_Nil)

lemma readChunkSizes_Nil:
  "readChunkSizes [] ds prev d bytes = Inl ErrEOF"
  by (simp add: readChunkSizes.simps readVarInt_Nil)

lemma readChunkSizes_hi:
  "readChunkSizes [2, 0, 0, 0x68, 0x69] [] False DirectionClientToServer (0, 0)
     = Inr ([(2, DirectionClientToServer), (0, DirectionServerToClient)], (2, 0), [0x68, 0x69])"
  by (subst readChunkSizes.simps) (simp add: readVarInt_two readChunkSizes_end)

lemma Data_hi_before:
  "Data_cache 2 threeStreams = Some (Inr ([packet DirectionClientToServer [0x68, 0x69]], 2, 0))"
  unfolding threeStreams_eq
  by (simp add: Data_cache_def sectionBytes_def readChunkSizes_hi ReadFull_def packet_def)

lemma compacts_threeStreams: "compacts 3 threeStreams"
  unfolding threeStreams_eq
  by (simp add: compacts_def markFree_def cleanupDue_def cleanupMinFreeSize_def headerSize_def Let_def)

lemma Data_after:
  "Data_cache 2 (snd (SetData 3 [newPacket] threeStreams)) = Some (Inl ErrEOF)"
  "Data_cache 3 (snd (SetData 3 [newPacket] threeStreams)) = Some (Inl ErrEOF)"
  unfolding overwritten_eq
  by (simp_all add: Data_cache_def sectionBytes_def readChunkSizes_B readChunkSizes_Nil)


text \<open>
  Claim C3 at the cache \<open>threeStreams\<close>, where \<open>SetData(3, ...)\<close> finds the older record
  of stream 3 and the free bytes reach both thresholds. Before the call \<open>Data(2)\<close>
  returns the packet \<open>hi\<close>. The call returns \<open>nil\<close>; the file keeps its length, the
  record of stream 2 keeps its offset, and the new record of 31 bytes is written at
  offset 0, the start of the free range, over the first record of stream 1, the record
  of stream 2 and the head of the older record of stream 3. The offset stored for
  stream 3 lies beyond the end of the file. Afterwards \<open>Data(2)\<close> and \<open>Data(3)\<close> both
  fail with \<open>io.EOF\<close>. The cleanup loop looks up \<open>streamID\<close>, the key it has just
  deleted, where it means the id of the header it has read, so that it never rewrites
  a record.
\<close>

theorem SetData_cleanup_overwrites:
  "Data_cache 2 threeStreams = Some (Inr ([packet DirectionClientToServer [0x68, 0x69]], 2, 0))
   \<and> compacts 3 threeStreams
   \<and> fst (SetData 3 [newPacket] threeStreams) = None
   \<and> fileData (snd (SetData 3 [newPacket] threeStreams))
       = streamHeader 3 @ recordBody [newPacket] @ drop 31 (fileData threeStreams)
   \<and> length (fileData (snd (SetData 3 [newPacket] threeStreams)))
       = length (fileData threeStreams)
   \<and> streamInfos (snd (SetData 3 [newPacket] threeStreams)) 2 = streamInfos threeStreams 2
   \<and> streamInfos (snd (SetData 3 [newPacket] threeStreams)) 3
       = Some \<lparr>info_offset = 16777275, info_size = 23\<rparr>
   \<and> int (length (fileData (snd (SetData 3 [newPacket] threeStreams)))) < 16777275
   \<and> Data_cache 2 (snd (SetData 3 [newPacket] threeStreams)) = Some (Inl ErrEOF)
   \<and> Data_cache 3 (snd (SetData 3 [newPacket] threeStreams)) = Some (Inl ErrEOF)"
proof -
  have a: "fst (SetData 3 [newPacket] threeStreams) = None"
    unfolding overwritten_eq by simp
  have b: "fileData (snd (SetData 3 [newPacket] threeStreams))
       = streamHeader 3 @ recordBody [newPacket] @ drop 31 (fileData threeStreams)"
    unfolding overwritten_eq by (simp add: threeStreams_eq streamHeader_3 recordBody_letters)
  have c: "length (fileData (snd (SetData 3 [newPacket] threeStreams)))
       = length (fileData threeStreams)"
    unfolding overwritten_eq by (simp add: threeStreams_eq)
  have d: "streamInfos (snd (SetData 3 [newPacket] threeStreams)) 2 = streamInfos threeStreams 2"
    unfolding overwritten_eq by (simp add: threeStreams_eq)
  have e: "streamInfos (snd (SetData 3 [newPacket] threeStreams)) 3
       = Some \<lparr>info_offset = 16777275, info_size = 23\<rparr>"
    unfolding overwritten_eq by simp
  have f: "int (length (fileData (snd (SetData 3 [newPacket] threeStreams)))) < 16777275"
    unfolding overwritten_eq by simp
  show ?thesis
    using Data_hi_before compacts_threeStreams a b c d e f Data_after by blast
qed

theorem SetData_cleanup_overwrites_witness:
  "Data_cache 2 (snd (SetData 3 [newPacket] threeStreams)) \<noteq> Data_cache 2 threeStreams
   \<and> length (fileData (snd (SetData 3 [newPacket] threeStreams))) = 16777267"
proof -
  have len: "length (fileData threeStreams) = 16777267"
    unfolding threeStreams_eq by simp
  have before: "Data_cache 2 threeStreams
                  = Some (Inr ([packet DirectionClientToServer [0x68, 0x69]], 2, 0))"
    and after: "Data_cache 2 (snd (SetData 3 [newPacket] threeStreams)) = Some (Inl ErrEOF)"
    and same: "length (fileData (snd (SetData 3 [newPacket] threeStreams)))
                 = length (fileData threeStreams)"
    using SetData_cleanup_overwrites by blast+
  show ?thesis
    unfolding before after same len by simp
qed

end
